theory Spec2Isabelle
  imports Complex_Main "HOL-Library.AList" "HOL-Library.Sublist" "HOL-Library.Log_Nat"
begin

section \<open>Page state manager\<close>

text \<open>
  The manager of \<^verbatim>\<open>PageStateManager\<close> keeps one \<^verbatim>\<open>PageState\<close> object and
  folds host signals into it. Every handler reads \<^verbatim>\<open>Date.now()\<close>; the model passes that
  reading as the argument \<open>now\<close> (milliseconds, an integer). The manager is modelled in a
  browser host, where \<^verbatim>\<open>window\<close> and \<^verbatim>\<open>document\<close> exist: this is the only host in
  which a listener is registered and a signal can arrive.
\<close>

datatype PageLifecycleState = Active | Passive | Hidden | Frozen | Terminated

record PageState =
  state :: PageLifecycleState
  stateStartTime :: int
  activeDuration :: int
  scrollDepth :: int
  maxScrollDepth :: int
  isIdle :: bool
  idleStartTime :: "int option"

text \<open>
  \<open>idleTimer\<close> is the pending timeout: \<open>Some due\<close> while a timeout is armed, with the
  instant at which it is due, and \<open>None\<close> when none is pending (never armed, cleared, or
  already fired).
\<close>

record PageStateManager =
  page :: PageState
  idleTimeout :: int
  idleTimer :: "int option"
  pageStartTime :: int

text \<open>
  What the scroll handler reads from the host. A JavaScript number is a binary64 value; the
  finite ones are rationals, and the model holds them as such. Infinities and NaN are
  outside it: the host reports finite metrics, and a sum or quotient beyond the largest
  finite double does not arise from them.
\<close>

record ScrollMetrics =
  innerHeight :: rat
  scrollY :: rat
  pageYOffset :: rat
  scrollTop :: rat
  scrollHeight :: rat

datatype Visibility = Visible | VisHidden | VisOther

datatype LifecycleEvent = Freeze | Resume | PageShow | PageHide

datatype Signal =
    VisibilityChange Visibility int
  | Lifecycle LifecycleEvent int
  | Scroll ScrollMetrics
  | UserActivity int
  | IdleTimeout int
  | Destroy

text \<open>\<^verbatim>\<open>a || b\<close> on numbers: the first operand unless it is zero.\<close>

definition js_or :: "rat \<Rightarrow> rat \<Rightarrow> rat" where
  "js_or a b = (if a \<noteq> 0 then a else b)"

text \<open>
  Binary64 arithmetic. Each operation returns the exact result rounded to the nearest
  double, ties to the even significand: \<open>binary64 x\<close> scales \<open>x\<close> by the unit in the last
  place of its binade (53 significant bits, the exponent not below that of the subnormals)
  and rounds the quotient to an integer.
\<close>

definition round_ties_even :: "rat \<Rightarrow> int" where
  "round_ties_even y =
     (let f = \<lfloor>y\<rfloor>; d = y - of_int f
      in if d < 1 / 2 then f else if 1 / 2 < d then f + 1 else if even f then f else f + 1)"

definition pow2 :: "int \<Rightarrow> rat" where
  "pow2 e = (if 0 \<le> e then 2 ^ nat e else 1 / 2 ^ nat (- e))"

text \<open>The exponent \<open>e\<close> with \<open>2 ^ e \<le> x < 2 ^ (e + 1)\<close>, for a positive \<open>x\<close>.\<close>

definition ilog2 :: "rat \<Rightarrow> int" where
  "ilog2 x = (let (p, q) = quotient_of x; e = bitlen p - bitlen q
              in if x < pow2 e then e - 1 else e)"

definition binary64_pos :: "rat \<Rightarrow> rat" where
  "binary64_pos x = (let e = max (ilog2 x) (- 1022); ulp = pow2 (e - 52)
                     in of_int (round_ties_even (x / ulp)) * ulp)"

definition binary64 :: "rat \<Rightarrow> rat" where
  "binary64 x = (if x = 0 then 0 else if 0 < x then binary64_pos x else - binary64_pos (- x))"

definition js_add :: "rat \<Rightarrow> rat \<Rightarrow> rat" where
  "js_add a b = binary64 (a + b)"

definition js_div :: "rat \<Rightarrow> rat \<Rightarrow> rat" where
  "js_div a b = binary64 (a / b)"

definition js_mul :: "rat \<Rightarrow> rat \<Rightarrow> rat" where
  "js_mul a b = binary64 (a * b)"

text \<open>\<^verbatim>\<open>Math.round\<close>: the nearest integer, halves towards plus infinity.\<close>

definition Math_round :: "rat \<Rightarrow> int" where
  "Math_round x = \<lfloor>x + 1 / 2\<rfloor>"

definition startIdleTimer :: "int \<Rightarrow> PageStateManager \<Rightarrow> PageStateManager" where
  "startIdleTimer now m = m\<lparr>idleTimer := Some (now + idleTimeout m)\<rparr>"

definition resetIdleTimer :: "int \<Rightarrow> PageStateManager \<Rightarrow> PageStateManager" where
  "resetIdleTimer now m = startIdleTimer now (m\<lparr>idleTimer := None\<rparr>)"

definition PageStateManager_new :: "int \<Rightarrow> int \<Rightarrow> PageStateManager" where
  "PageStateManager_new timeout now =
     startIdleTimer now
       \<lparr>page = \<lparr>state = Active, stateStartTime = now, activeDuration = 0, scrollDepth = 0,
                 maxScrollDepth = 0, isIdle = False, idleStartTime = None\<rparr>,
        idleTimeout = timeout, idleTimer = None, pageStartTime = now\<rparr>"

definition getDuration :: "int \<Rightarrow> PageStateManager \<Rightarrow> int" where
  "getDuration now m = now - pageStartTime m"

definition getActiveDuration :: "int \<Rightarrow> PageStateManager \<Rightarrow> int" where
  "getActiveDuration now m =
     (let duration = activeDuration (page m)
      in if state (page m) = Active \<and> \<not> isIdle (page m)
         then duration + (now - stateStartTime (page m))
         else duration)"

text \<open>The part shared by the two lifecycle handlers: credit, switch state, re-arm.\<close>

definition creditActive :: "int \<Rightarrow> PageState \<Rightarrow> PageState" where
  "creditActive now s =
     (if state s = Active \<and> \<not> isIdle s
      then s\<lparr>activeDuration := activeDuration s + (now - stateStartTime s)\<rparr>
      else s)"

definition enterState :: "PageLifecycleState \<Rightarrow> int \<Rightarrow> PageStateManager \<Rightarrow> PageStateManager" where
  "enterState newState now m =
     (let m1 = m\<lparr>page := (creditActive now (page m))\<lparr>state := newState, stateStartTime := now\<rparr>\<rparr>
      in if newState = Active then resetIdleTimer now m1 else m1)"

definition handleVisibilityChange :: "Visibility \<Rightarrow> int \<Rightarrow> PageStateManager \<Rightarrow> PageStateManager" where
  "handleVisibilityChange v now m =
     enterState (case v of Visible \<Rightarrow> Active | VisHidden \<Rightarrow> Hidden | VisOther \<Rightarrow> Passive) now m"

definition handlePageLifecycle :: "LifecycleEvent \<Rightarrow> int \<Rightarrow> PageStateManager \<Rightarrow> PageStateManager" where
  "handlePageLifecycle e now m =
     enterState (case e of Freeze \<Rightarrow> Frozen | Resume \<Rightarrow> Active | PageShow \<Rightarrow> Active
                        | PageHide \<Rightarrow> Terminated) now m"

definition calculateScrollDepth :: "ScrollMetrics \<Rightarrow> int" where
  "calculateScrollDepth v =
     (let windowHeight = innerHeight v;
          scrollPosition = js_or (scrollY v) (js_or (pageYOffset v) (scrollTop v));
          pageHeight = scrollHeight v
      in if pageHeight = 0 then 0
         else let depth = js_mul (js_div (js_add scrollPosition windowHeight) pageHeight) 100
              in min (Math_round depth) 100)"

definition handleScroll :: "ScrollMetrics \<Rightarrow> PageStateManager \<Rightarrow> PageStateManager" where
  "handleScroll v m =
     (let depth = calculateScrollDepth v;
          s1 = (page m)\<lparr>scrollDepth := depth\<rparr>
      in m\<lparr>page := (if depth > maxScrollDepth s1 then s1\<lparr>maxScrollDepth := depth\<rparr> else s1)\<rparr>)"

definition handleUserActivity :: "int \<Rightarrow> PageStateManager \<Rightarrow> PageStateManager" where
  "handleUserActivity now m =
     resetIdleTimer now
       (if isIdle (page m)
        then m\<lparr>page := (page m)\<lparr>isIdle := False, idleStartTime := None\<rparr>\<rparr>
        else m)"

text \<open>
  The callback of the idle timeout. It can run only for an armed timeout that is due; a
  signal \<open>IdleTimeout now\<close> that finds no such timeout changes nothing.
\<close>

definition idleCallback :: "int \<Rightarrow> PageStateManager \<Rightarrow> PageStateManager" where
  "idleCallback now m =
     (let s1 = (page m)\<lparr>isIdle := True, idleStartTime := Some now\<rparr>;
          s2 = (if state s1 = Active
                then s1\<lparr>activeDuration := activeDuration s1 + (now - stateStartTime s1),
                        stateStartTime := now\<rparr>
                else s1)
      in m\<lparr>page := s2, idleTimer := None\<rparr>)"

definition destroy :: "PageStateManager \<Rightarrow> PageStateManager" where
  "destroy m = m\<lparr>idleTimer := None\<rparr>"

fun psm_step :: "PageStateManager \<Rightarrow> Signal \<Rightarrow> PageStateManager" where
  "psm_step m (VisibilityChange v now) = handleVisibilityChange v now m"
| "psm_step m (Lifecycle e now) = handlePageLifecycle e now m"
| "psm_step m (Scroll v) = handleScroll v m"
| "psm_step m (UserActivity now) = handleUserActivity now m"
| "psm_step m (IdleTimeout now) =
     (case idleTimer m of
        None \<Rightarrow> m
      | Some due \<Rightarrow> if due \<le> now then idleCallback now m else m)"
| "psm_step m Destroy = destroy m"

definition psm_run :: "PageStateManager \<Rightarrow> Signal list \<Rightarrow> PageStateManager" where
  "psm_run m sigs = foldl psm_step m sigs"

text \<open>
  The percentage before rounding to an integer, and the condition under which the lower
  bound of the scroll depth is stated: the bottom edge of the viewport (offset plus viewport
  height) is not above the top of the document, and the document height is not negative.
\<close>

definition scrollPercentage :: "ScrollMetrics \<Rightarrow> rat" where
  "scrollPercentage v =
     js_mul (js_div (js_add (js_or (scrollY v) (js_or (pageYOffset v) (scrollTop v)))
                            (innerHeight v)) (scrollHeight v)) 100"

definition bottom_nonneg :: "ScrollMetrics \<Rightarrow> bool" where
  "bottom_nonneg v \<longleftrightarrow>
     0 \<le> js_or (scrollY v) (js_or (pageYOffset v) (scrollTop v)) + innerHeight v \<and>
     0 \<le> scrollHeight v"

fun scroll_nonneg :: "Signal \<Rightarrow> bool" where
  "scroll_nonneg (Scroll v) = bottom_nonneg v"
| "scroll_nonneg _ = True"

section \<open>Event queue\<close>

text \<open>
  \<^verbatim>\<open>EventQueue\<close> is asynchronous: \<^verbatim>\<open>process\<close> and \<^verbatim>\<open>processNext\<close> suspend at
  \<^verbatim>\<open>await sendEvent\<close>, and \<^verbatim>\<open>retry\<close> leaves a \<^verbatim>\<open>setTimeout\<close> callback behind. The
  model is a state machine over the queue object together with what the host's event loop
  holds for it:
  \<^item> \<open>heap\<close>: every value this queue has held (the events it created and the values it
    loaded from storage), addressed by its index. \<^verbatim>\<open>retry\<close> mutates \<^verbatim>\<open>event.retries\<close> through a reference captured when the
    attempt started, so the queue holds references, not copies;
  \<^item> \<open>inflight\<close>: the suspended \<^verbatim>\<open>processNext\<close> activations, each with the event it
    captured and with who awaits it (the drain loop of \<^verbatim>\<open>process\<close>, or nobody when a
    timer callback started it);
  \<^item> \<open>timers\<close>: the due instants of the pending retry timeouts;
  \<^item> \<open>attempts\<close>, \<open>delivered\<close>, \<open>warnings\<close>: what the transport and the console have
    observed so far.
  A step is one task of the event loop, run to completion together with the promise
  continuations it releases.
\<close>

datatype jsval = JStr string | JNum int | JNull

type_synonym payload = "(string \<times> jsval) list"

record QueuedEvent =
  ev_id :: string
  endpoint :: string
  data :: payload
  timestamp :: int
  retries :: nat

text \<open>
  The queue is typed \<^verbatim>\<open>QueuedEvent[]\<close>, but \<^verbatim>\<open>loadFromLocalStorage\<close> casts whatever
  \<^verbatim>\<open>JSON.parse\<close> returns and spreads it into the queue unchecked, so a queue can hold
  values that are not events. The model keeps of such a value what the queue's code does
  with it:
  \<^item> \<open>Object i n\<close>: a plain object that is not a well-formed event; \<open>i\<close> is
    \<^verbatim>\<open>String(o.id)\<close> and \<open>n\<close> is the number that \<^verbatim>\<open>o.retries\<close> converts to;
  \<^item> \<open>ArrayValue n\<close>: an array, with the number its \<^verbatim>\<open>retries\<close> property converts to
    (the property is not serialised with it);
  \<^item> \<open>Primitive\<close>: a string, number or boolean. Reading a property of it gives
    \<^verbatim>\<open>undefined\<close>, assigning one throws a \<^verbatim>\<open>TypeError\<close> (the module is strict code);
  \<^item> \<open>Null\<close>: \<^verbatim>\<open>null\<close>; reading a property of it throws a \<^verbatim>\<open>TypeError\<close>.
  The endpoint and payload of a value that is not an event are whatever its properties
  read; the queue relays them and the model does not hold them.
\<close>

text \<open>
  What a \<^verbatim>\<open>retries\<close> property converts to: an integer, the number \<^verbatim>\<open>NaN\<close> (which
  \<^verbatim>\<open>JSON.stringify\<close> writes as \<^verbatim>\<open>null\<close>), or a value that is absent or not numeric
  (it converts to \<^verbatim>\<open>NaN\<close> and is serialised as it is).
\<close>

datatype jsnum = Num int | NaN | NotNumeric

datatype item =
    Event QueuedEvent
  | Object string jsnum
  | ArrayValue jsnum
  | Primitive
  | Null

text \<open>
  The value under the storage key, by what \<^verbatim>\<open>loadFromLocalStorage\<close> can do with it: the
  empty string (falsy), a string that \<^verbatim>\<open>JSON.parse\<close> and the spread turn into a sequence
  of values (the events of a snapshot, or anything else that parses to an array or to a
  string), or a non-empty string on which they throw.
\<close>

datatype stored = EmptyString | Snapshot "item list" | Corrupt

text \<open>
  \<open>available\<close>: \<^verbatim>\<open>typeof localStorage !== 'undefined'\<close>; \<open>writable\<close>: \<^verbatim>\<open>setItem\<close>
  succeeds (it throws when the quota is exceeded); \<open>content\<close>: the value under
  \<^verbatim>\<open>STORAGE_KEY\<close>, \<open>None\<close> when the key is missing.
\<close>

record Storage =
  available :: bool
  writable :: bool
  content :: "stored option"

datatype warning =
    NoLocalStorage
  | SendFailedWillRetry
  | FailedAfterRetries string nat
  | SaveFailed
  | LoadFailedCorrupted
  | FlushFailed
  | ProcessingError
  | RetryError

datatype js_error = TypeError

datatype awaiter = Loop | Timer

record attempt =
  a_ref :: nat
  a_time :: int
  a_beacon :: bool

record EventQueue =
  heap :: "item list"
  queue :: "nat list"
  processing :: bool
  maxRetries :: nat
  storage :: Storage
  clock :: int
  timers :: "int list"
  inflight :: "(nat \<times> awaiter) list"
  attempts :: "attempt list"
  delivered :: "nat list"
  warnings :: "warning list"

definition DEFAULT_MAX_RETRIES :: nat where
  "DEFAULT_MAX_RETRIES = 3"

definition RETRY_DELAYS :: "int list" where
  "RETRY_DELAYS = [1000, 2000, 4000]"

text \<open>
  \<^verbatim>\<open>RETRY_DELAYS[event.retries - 1] || RETRY_DELAYS[RETRY_DELAYS.length - 1]\<close>: an index
  outside the array reads \<^verbatim>\<open>undefined\<close>, which is falsy, as is an entry 0.
\<close>

definition retry_delay :: "nat \<Rightarrow> int" where
  "retry_delay r =
     (if 1 \<le> r \<and> r - 1 < length RETRY_DELAYS \<and> RETRY_DELAYS ! (r - 1) \<noteq> 0
      then RETRY_DELAYS ! (r - 1)
      else last RETRY_DELAYS)"

definition warn :: "warning \<Rightarrow> EventQueue \<Rightarrow> EventQueue" where
  "warn w q = q\<lparr>warnings := warnings q @ [w]\<rparr>"

text \<open>\<^verbatim>\<open>this.queue.shift()\<close>: removes the head; nothing happens on an empty array.\<close>

definition shift :: "EventQueue \<Rightarrow> EventQueue" where
  "shift q = q\<lparr>queue := drop 1 (queue q)\<rparr>"

definition removeItem :: "EventQueue \<Rightarrow> EventQueue" where
  "removeItem q = q\<lparr>storage := (storage q)\<lparr>content := None\<rparr>\<rparr>"

text \<open>
  What \<^verbatim>\<open>JSON.parse\<close> gives back for a value that \<^verbatim>\<open>JSON.stringify\<close> has written: the
  value itself, except that a \<^verbatim>\<open>retries\<close> of \<^verbatim>\<open>NaN\<close> comes back as \<^verbatim>\<open>null\<close>, which
  converts to 0, and that an array comes back without the property.
\<close>

fun serialised :: "item \<Rightarrow> item" where
  "serialised (Object i NaN) = Object i (Num 0)"
| "serialised (ArrayValue n) = ArrayValue NotNumeric"
| "serialised x = x"

definition saveToLocalStorage :: "EventQueue \<Rightarrow> EventQueue" where
  "saveToLocalStorage q =
     (if \<not> available (storage q) then warn NoLocalStorage q
      else if writable (storage q)
      then q\<lparr>storage := (storage q)\<lparr>content :=
                Some (Snapshot (map (\<lambda>r. serialised (heap q ! r)) (queue q)))\<rparr>\<rparr>
      else warn SaveFailed q)"

text \<open>
  \<^verbatim>\<open>event.retries++\<close> on a value that is not an event, the comparison
  \<^verbatim>\<open>event.retries >= this.maxRetries\<close> (false for \<^verbatim>\<open>NaN\<close>) and the delay looked up for
  the new count.
\<close>

fun bump :: "jsnum \<Rightarrow> jsnum" where
  "bump (Num i) = Num (i + 1)"
| "bump _ = NaN"

fun reached :: "jsnum \<Rightarrow> nat \<Rightarrow> bool" where
  "reached (Num i) m = (int m \<le> i)"
| "reached _ m = False"

fun delay_for :: "jsnum \<Rightarrow> int" where
  "delay_for (Num i) = retry_delay (nat i)"
| "delay_for _ = last RETRY_DELAYS"

definition retry_foreign :: "nat \<Rightarrow> item \<Rightarrow> string \<Rightarrow> jsnum \<Rightarrow> EventQueue \<Rightarrow> EventQueue" where
  "retry_foreign r x i n q =
     (let q1 = q\<lparr>heap := (heap q)[r := x]\<rparr>
      in if reached n (maxRetries q1)
         then saveToLocalStorage (shift (warn (FailedAfterRetries i (maxRetries q1)) q1))
         else q1\<lparr>timers := timers q1 @ [clock q1 + delay_for n]\<rparr>)"

text \<open>
  \<^verbatim>\<open>retry(event)\<close>, for the value at reference \<open>r\<close>, with the exception it throws, if
  any. References are handed out by \<^verbatim>\<open>enqueue\<close> and by the load at construction only, so
  \<open>r\<close> always addresses a cell of the heap.
\<close>

definition retry :: "nat \<Rightarrow> EventQueue \<Rightarrow> EventQueue \<times> js_error option" where
  "retry r q =
     (case heap q ! r of
        Event e \<Rightarrow>
          (let event = e\<lparr>retries := Suc (retries e)\<rparr>;
               q1 = q\<lparr>heap := (heap q)[r := Event event]\<rparr>
           in if retries event \<ge> maxRetries q1
              then (saveToLocalStorage
                      (shift (warn (FailedAfterRetries (ev_id event) (maxRetries q1)) q1)), None)
              else (q1\<lparr>timers := timers q1 @ [clock q1 + retry_delay (retries event)]\<rparr>, None))
      | Object i n \<Rightarrow> (retry_foreign r (Object i (bump n)) i (bump n) q, None)
      | ArrayValue n \<Rightarrow> (retry_foreign r (ArrayValue (bump n)) ''undefined'' (bump n) q, None)
      | Primitive \<Rightarrow> (q, Some TypeError)
      | Null \<Rightarrow> (q, Some TypeError))"

text \<open>
  \<^verbatim>\<open>processNext\<close> up to its \<^verbatim>\<open>await\<close>, with the exception its promise is rejected
  with, if any. On a non-empty queue it captures the head and hands it to the transport
  (\<^verbatim>\<open>sendEvent(event.endpoint, event.data, false)\<close>); the activation then stays in
  \<open>inflight\<close> until the transport settles. When the head is \<^verbatim>\<open>null\<close>, reading
  \<^verbatim>\<open>event.endpoint\<close> throws before the transport is called, and the \<^verbatim>\<open>catch\<close> branch
  runs at once.
\<close>

definition processNext :: "awaiter \<Rightarrow> EventQueue \<Rightarrow> EventQueue \<times> js_error option" where
  "processNext w q =
     (case queue q of
        [] \<Rightarrow> (q, None)
      | r # _ \<Rightarrow>
          (case heap q ! r of
             Null \<Rightarrow> retry r (warn SendFailedWillRetry q)
           | _ \<Rightarrow> (q\<lparr>attempts := attempts q @ [\<lparr>a_ref = r, a_time = clock q, a_beacon = False\<rparr>],
                     inflight := inflight q @ [(r, w)]\<rparr>, None)))"

text \<open>
  The \<^verbatim>\<open>catch\<close> and \<^verbatim>\<open>finally\<close> blocks of \<^verbatim>\<open>process\<close>, entered when the awaited
  \<^verbatim>\<open>processNext\<close> is rejected.
\<close>

definition process_abort :: "EventQueue \<Rightarrow> EventQueue" where
  "process_abort q = (warn ProcessingError q)\<lparr>processing := False\<rparr>"

text \<open>
  The head of the \<^verbatim>\<open>while\<close> loop of \<^verbatim>\<open>process\<close>: another \<^verbatim>\<open>processNext\<close> while the
  queue is not empty, otherwise the \<^verbatim>\<open>finally\<close> block.
\<close>

definition process_loop :: "EventQueue \<Rightarrow> EventQueue" where
  "process_loop q =
     (if queue q \<noteq> []
      then (case processNext Loop q of
              (q', None) \<Rightarrow> q'
            | (q', Some e) \<Rightarrow> process_abort q')
      else q\<lparr>processing := False\<rparr>)"

definition process :: "EventQueue \<Rightarrow> EventQueue" where
  "process q = (if processing q then q else process_loop (q\<lparr>processing := True\<rparr>))"

text \<open>\<open>eid\<close> is what \<^verbatim>\<open>generateEventId()\<close> returns (it draws on \<^verbatim>\<open>Math.random\<close>).\<close>

definition enqueue :: "string \<Rightarrow> string \<Rightarrow> payload \<Rightarrow> EventQueue \<Rightarrow> EventQueue" where
  "enqueue eid ep d q =
     (let event = \<lparr>ev_id = eid, endpoint = ep, data = d, timestamp = clock q, retries = 0\<rparr>;
          q1 = q\<lparr>heap := heap q @ [Event event], queue := queue q @ [length (heap q)]\<rparr>
      in if \<not> processing q1 then process q1 else q1)"

text \<open>
  The transport settles the \<open>i\<close>-th suspended attempt, with success or with a rejection.
  \<^verbatim>\<open>processNext\<close> resumes (\<^verbatim>\<open>shift\<close>, or the \<^verbatim>\<open>catch\<close> branch with \<^verbatim>\<open>retry\<close>); when the
  drain loop awaited it, the loop goes on, or ends in its \<^verbatim>\<open>catch\<close> when \<^verbatim>\<open>retry\<close>
  threw; the rejection of an activation that a timer started is logged by the callback.
\<close>

definition settle :: "nat \<Rightarrow> bool \<Rightarrow> EventQueue \<Rightarrow> EventQueue" where
  "settle i ok q =
     (if i < length (inflight q)
      then let (r, w) = inflight q ! i;
               q1 = q\<lparr>inflight := take i (inflight q) @ drop (Suc i) (inflight q)\<rparr>;
               (q2, err) = (if ok then (shift (q1\<lparr>delivered := delivered q1 @ [r]\<rparr>), None)
                            else retry r (warn SendFailedWillRetry q1))
           in (case (w, err) of
                 (Loop, None) \<Rightarrow> process_loop q2
               | (Loop, Some e) \<Rightarrow> process_abort q2
               | (Timer, None) \<Rightarrow> q2
               | (Timer, Some e) \<Rightarrow> warn RetryError q2)
      else q)"

text \<open>
  The \<^verbatim>\<open>setTimeout\<close> callback of \<^verbatim>\<open>retry\<close>, for the \<open>i\<close>-th pending timeout; it runs only
  when that timeout is due.
\<close>

definition fire :: "nat \<Rightarrow> EventQueue \<Rightarrow> EventQueue" where
  "fire i q =
     (if i < length (timers q) \<and> timers q ! i \<le> clock q
      then let q1 = q\<lparr>timers := take i (timers q) @ drop (Suc i) (timers q)\<rparr>
           in if processing q1
              then (case processNext Timer q1 of
                      (q', None) \<Rightarrow> q'
                    | (q', Some e) \<Rightarrow> warn RetryError q')
              else q1
      else q)"

text \<open>
  The \<^verbatim>\<open>for\<close> loop of \<^verbatim>\<open>flush\<close>. \<open>throws r\<close> says whether the send of the value at
  \<open>r\<close> throws synchronously (reading \<^verbatim>\<open>event.endpoint\<close> does for \<^verbatim>\<open>null\<close>); the
  promise that \<^verbatim>\<open>sendEvent(..., true)\<close> returns otherwise is dropped.
\<close>

fun flush_loop :: "(nat \<Rightarrow> bool) \<Rightarrow> nat list \<Rightarrow> EventQueue \<Rightarrow> EventQueue" where
  "flush_loop throws [] q = q"
| "flush_loop throws (r # rs) q =
     flush_loop throws rs
       (if heap q ! r = Null then (warn FlushFailed q)\<lparr>queue := queue q @ [r]\<rparr>
        else let q1 = q\<lparr>attempts := attempts q @
                          [\<lparr>a_ref = r, a_time = clock q, a_beacon = True\<rparr>]\<rparr>
             in if throws r then (warn FlushFailed q1)\<lparr>queue := queue q1 @ [r]\<rparr> else q1)"

definition flush :: "(nat \<Rightarrow> bool) \<Rightarrow> EventQueue \<Rightarrow> EventQueue" where
  "flush throws q =
     (let eventsToFlush = queue q;
          q1 = flush_loop throws eventsToFlush (q\<lparr>queue := []\<rparr>)
      in if queue q1 \<noteq> [] then saveToLocalStorage q1 else q1)"

datatype load_error = ParseError

text \<open>The \<^verbatim>\<open>try\<close> block of \<^verbatim>\<open>loadFromLocalStorage\<close>; \<open>Inl\<close> is the exception it throws.\<close>

definition load_try :: "EventQueue \<Rightarrow> load_error + EventQueue" where
  "load_try q =
     (case content (storage q) of
        None \<Rightarrow> Inr q
      | Some EmptyString \<Rightarrow> Inr q
      | Some Corrupt \<Rightarrow> Inl ParseError
      | Some (Snapshot events) \<Rightarrow>
          (let q1 = q\<lparr>heap := heap q @ events,
                       queue := queue q @ [length (heap q) ..< length (heap q) + length events]\<rparr>;
               q2 = removeItem q1
           in Inr (if events \<noteq> [] \<and> \<not> processing q2 then process q2 else q2)))"

definition loadFromLocalStorage :: "EventQueue \<Rightarrow> EventQueue" where
  "loadFromLocalStorage q =
     (if \<not> available (storage q) then warn NoLocalStorage q
      else case load_try q of
             Inr q' \<Rightarrow> q'
           | Inl e \<Rightarrow> removeItem (warn LoadFailedCorrupted q))"

definition EventQueue_new :: "nat \<Rightarrow> Storage \<Rightarrow> int \<Rightarrow> EventQueue" where
  "EventQueue_new mr st now =
     loadFromLocalStorage
       \<lparr>heap = [], queue = [], processing = False, maxRetries = mr, storage = st, clock = now,
        timers = [], inflight = [], attempts = [], delivered = [], warnings = []\<rparr>"

text \<open>
  What can happen to a queue: a call of a public method, the transport settling an attempt,
  a retry timeout coming due, or time passing.
\<close>

datatype action =
    Enqueue string string payload
  | Process
  | Flush "nat \<Rightarrow> bool"
  | Settle nat bool
  | Fire nat
  | Advance nat

fun step :: "EventQueue \<Rightarrow> action \<Rightarrow> EventQueue" where
  "step q (Enqueue eid ep d) = enqueue eid ep d q"
| "step q Process = process q"
| "step q (Flush throws) = flush throws q"
| "step q (Settle i ok) = settle i ok q"
| "step q (Fire i) = fire i q"
| "step q (Advance dt) = q\<lparr>clock := clock q + int dt\<rparr>"

definition run :: "EventQueue \<Rightarrow> action list \<Rightarrow> EventQueue" where
  "run q acts = foldl step q acts"

text \<open>
  A transport that accepts every attempt never rejects one, and a run made of
  \<^verbatim>\<open>enqueue\<close> and \<^verbatim>\<open>process\<close> calls has no \<^verbatim>\<open>flush\<close>.
\<close>

fun accepting :: "action \<Rightarrow> bool" where
  "accepting (Settle i ok) = ok"
| "accepting (Flush throws) = False"
| "accepting _ = True"

text \<open>A run without a call of \<^verbatim>\<open>flush\<close>; the transport may answer as it likes.\<close>

fun no_flush :: "action \<Rightarrow> bool" where
  "no_flush (Flush throws) = False"
| "no_flush _ = True"

text \<open>The \<^verbatim>\<open>enqueue\<close> calls of a run, in the order they were made.\<close>

fun enqueued :: "action list \<Rightarrow> (string \<times> string \<times> payload) list" where
  "enqueued [] = []"
| "enqueued (Enqueue eid ep d # acts) = (eid, ep, d) # enqueued acts"
| "enqueued (_ # acts) = enqueued acts"

text \<open>
  What the transport was handed at an attempt: id, endpoint and payload of the event the
  attempt captured, or \<open>None\<close> for a captured value that is not an event.
\<close>

definition event_key :: "QueuedEvent \<Rightarrow> string \<times> string \<times> payload" where
  "event_key e = (ev_id e, endpoint e, data e)"

fun handed :: "item \<Rightarrow> (string \<times> string \<times> payload) option" where
  "handed (Event e) = Some (event_key e)"
| "handed _ = None"

definition observed :: "EventQueue \<Rightarrow> (string \<times> string \<times> payload) option list" where
  "observed q = map (\<lambda>a. handed (heap q ! a_ref a)) (attempts q)"

text \<open>The values that construction appends to the queue from a storage.\<close>

definition replayed :: "Storage \<Rightarrow> item list" where
  "replayed st =
     (if available st
      then (case content st of Some (Snapshot events) \<Rightarrow> events | _ \<Rightarrow> [])
      else [])"

section \<open>Tracker\<close>

text \<open>
  The part of \<^verbatim>\<open>Tracker\<close> that builds events from the property layers and finalises the
  page. \<open>HostPage\<close> is what the host and the cookie manager report when an event is built;
  \<^verbatim>\<open>Date.now()\<close> is the clock of the event queue. A property map is held as the list of
  entries that \<^verbatim>\<open>Object.entries\<close> enumerates for it.
\<close>

record HostPage =
  href :: string
  title :: string
  hostname :: string
  pathname_search :: string
  visitorId :: string

record Tracker =
  project :: string
  eventQueue :: EventQueue
  pageStateManager :: PageStateManager
  visitorData :: payload
  sessionData :: payload
  projectData :: payload
  sessionStartTime :: int
  lastEventId :: "string option"

text \<open>\<^verbatim>\<open>obj[prefix + key] = value\<close> for every entry of \<open>props\<close>, in order.\<close>

definition add_prefixed :: "string \<Rightarrow> payload \<Rightarrow> payload \<Rightarrow> payload" where
  "add_prefixed pre props obj = foldl (\<lambda>e (k, v). AList.update (pre @ k) v e) obj props"

definition buildTrackingEvent :: "string \<Rightarrow> payload option \<Rightarrow> HostPage \<Rightarrow> Tracker \<Rightarrow> payload" where
  "buildTrackingEvent event properties host t =
     (let now = clock (eventQueue t);
          pageState = page (pageStateManager t);
          e0 = [(''project'', JStr (project t)), (''event'', JStr event),
                (''cookie'', JStr (visitorId host)), (''timestamp'', JNum now),
                (''url'', JStr (href host)), (''title'', JStr (title host)),
                (''domain'', JStr (hostname host)), (''uri'', JStr (pathname_search host)),
                (''duration'', JNum (getActiveDuration now (pageStateManager t))),
                (''scroll_depth'', JNum (maxScrollDepth pageState))];
          e1 = add_prefixed ''u_'' (visitorData t) e0;
          e2 = add_prefixed ''s_'' (sessionData t) e1;
          e3 = add_prefixed ''p_'' (projectData t) e2
      in case properties of None \<Rightarrow> e3 | Some props \<Rightarrow> add_prefixed ''e_'' props e3)"

text \<open>\<^verbatim>\<open>if (this.lastEventId)\<close>: neither \<^verbatim>\<open>null\<close> nor the empty string.\<close>

definition truthy_id :: "string option \<Rightarrow> bool" where
  "truthy_id i = (case i of None \<Rightarrow> False | Some s \<Rightarrow> s \<noteq> [])"

definition sendFinalEvent :: "string \<Rightarrow> HostPage \<Rightarrow> Tracker \<Rightarrow> Tracker" where
  "sendFinalEvent eid host t =
     (let now = clock (eventQueue t);
          pageState = page (pageStateManager t);
          finalEvent = buildTrackingEvent ''page_unload''
            (Some [(''final_duration'', JNum (getActiveDuration now (pageStateManager t))),
                   (''final_scroll_depth'', JNum (maxScrollDepth pageState)),
                   (''session_duration'', JNum (now - sessionStartTime t))]) host t
      in if truthy_id (lastEventId t)
         then t\<lparr>eventQueue := enqueue eid ''/update''
                  (AList.update ''id'' (JStr (the (lastEventId t))) finalEvent) (eventQueue t)\<rparr>
         else t\<lparr>eventQueue := enqueue eid ''/track/'' finalEvent (eventQueue t)\<rparr>)"

definition clearSessionProperties :: "Tracker \<Rightarrow> Tracker" where
  "clearSessionProperties t = t\<lparr>sessionData := []\<rparr>"

definition detectSessionEnd :: "Tracker \<Rightarrow> Tracker" where
  "detectSessionEnd t = clearSessionProperties t"

text \<open>
  The handler that \<^verbatim>\<open>handlePageUnload\<close> registers. Its three steps run inside a
  \<^verbatim>\<open>try\<close>; none of them has a throwing branch (\<^verbatim>\<open>enqueue\<close> starts \<^verbatim>\<open>process\<close> and
  attaches a \<^verbatim>\<open>catch\<close> to its promise, \<^verbatim>\<open>flush\<close> guards each send and the save), so the
  handler always reaches its last step. \<open>eid\<close> is the id generated for the final event and
  \<open>throws\<close> says for which events the beacon send throws synchronously.
\<close>

definition unloadHandler :: "string \<Rightarrow> (nat \<Rightarrow> bool) \<Rightarrow> HostPage \<Rightarrow> Tracker \<Rightarrow> Tracker" where
  "unloadHandler eid throws host t =
     (let t1 = sendFinalEvent eid host t;
          t2 = t1\<lparr>eventQueue := flush throws (eventQueue t1)\<rparr>
      in detectSessionEnd t2)"

text \<open>
  The invariant behind the bound on retry counters. The queue holds distinct references
  to events of the heap whose counter is below \<^verbatim>\<open>maxRetries\<close>, and a value captured by
  a suspended attempt is never behind the head of the queue: it is the head, or it has left
  the queue.
\<close>

fun below_max :: "nat \<Rightarrow> item \<Rightarrow> bool" where
  "below_max m (Event e) = (retries e < m)"
| "below_max m _ = False"

definition retries_inv :: "EventQueue \<Rightarrow> bool" where
  "retries_inv q \<longleftrightarrow>
     distinct (queue q) \<and>
     (\<forall>r\<in>set (queue q). r < length (heap q) \<and> below_max (maxRetries q) (heap q ! r)) \<and>
     (\<forall>r\<in>fst ` set (inflight q). r < length (heap q) \<and> r \<notin> set (drop 1 (queue q)))"

text \<open>
  The invariant behind the delivery order under an accepting transport. The values of the
  heap are those replayed at construction followed by the enqueued events, in order; \<open>k\<close>
  of them have been delivered, the queue holds the others in order, and the drain loop is
  suspended on the head exactly when there is a head that can be handed to the transport
  (\<open>busy_at\<close>): a \<^verbatim>\<open>null\<close> head makes \<^verbatim>\<open>processNext\<close> throw, which ends the drain loop
  with the queue unchanged.
\<close>

definition busy_at :: "nat \<Rightarrow> EventQueue \<Rightarrow> bool" where
  "busy_at k q \<longleftrightarrow> k < length (heap q) \<and> heap q ! k \<noteq> Null"

definition fifo_at :: "nat \<Rightarrow> EventQueue \<Rightarrow> bool" where
  "fifo_at k q \<longleftrightarrow>
     delivered q = [0..<k] \<and>
     k \<le> length (heap q) \<and>
     queue q = [k..<length (heap q)] \<and>
     processing q = busy_at k q \<and>
     inflight q = (if busy_at k q then [(k, Loop)] else []) \<and>
     map a_ref (attempts q) = [0..<(if busy_at k q then Suc k else k)] \<and>
     timers q = []"

definition fifo_inv :: "EventQueue \<Rightarrow> bool" where
  "fifo_inv q \<longleftrightarrow> (\<exists>k. fifo_at k q)"

text \<open>The same between two iterations of the drain loop, when no attempt is under way.\<close>

definition fifo_idle :: "nat \<Rightarrow> EventQueue \<Rightarrow> bool" where
  "fifo_idle k q \<longleftrightarrow>
     delivered q = [0..<k] \<and>
     k \<le> length (heap q) \<and>
     queue q = [k..<length (heap q)] \<and>
     processing q \<and>
     inflight q = [] \<and>
     map a_ref (attempts q) = [0..<k] \<and>
     timers q = []"

text \<open>
  The invariant behind the order of attempts under any transport: the values attempted so
  far, followed by the values still queued, are in non-decreasing order of arrival in the
  queue.
\<close>

definition order_inv :: "EventQueue \<Rightarrow> bool" where
  "order_inv q \<longleftrightarrow>
     sorted (map a_ref (attempts q) @ queue q) \<and>
     (\<forall>r\<in>set (map a_ref (attempts q) @ queue q). r < length (heap q))"

section \<open>Scroll depth\<close>

lemma psm_step_maxScrollDepth:
  "maxScrollDepth (page m) \<le> maxScrollDepth (page (psm_step m sg))"
  by (cases sg)
     (simp_all add: handleVisibilityChange_def handlePageLifecycle_def enterState_def
        creditActive_def resetIdleTimer_def startIdleTimer_def handleScroll_def
        handleUserActivity_def idleCallback_def destroy_def Let_def split: option.split)

lemma psm_run_maxScrollDepth:
  "maxScrollDepth (page m) \<le> maxScrollDepth (page (psm_run m sigs))"
proof (induction sigs arbitrary: m)
  case Nil
  show ?case by (simp add: psm_run_def)
next
  case (Cons sg sigs)
  have "maxScrollDepth (page m) \<le> maxScrollDepth (page (psm_step m sg))"
    by (rule psm_step_maxScrollDepth)
  also have "\<dots> \<le> maxScrollDepth (page (psm_run (psm_step m sg) sigs))"
    by (rule Cons.IH)
  finally show ?case by (simp add: psm_run_def)
qed

lemma handleScroll_max:
  "maxScrollDepth (page (handleScroll v m)) =
     max (maxScrollDepth (page m)) (calculateScrollDepth v)"
  by (simp add: handleScroll_def Let_def max_def)

text \<open>
  C8. The maximum scroll depth never decreases along any sequence of signals (scroll,
  visibility, lifecycle, activity, idle timeout, disposal), and a scroll signal sets it to
  the maximum of its previous value and the depth computed for that signal.
\<close>

theorem maxScrollDepth_monotone:
  "maxScrollDepth (page m) \<le> maxScrollDepth (page (psm_run m sigs)) \<and>
   maxScrollDepth (page (psm_step m (Scroll v))) =
     max (maxScrollDepth (page m)) (calculateScrollDepth v)"
  using psm_run_maxScrollDepth handleScroll_max by simp

lemma round_ties_even_nonneg: "0 \<le> y \<Longrightarrow> 0 \<le> round_ties_even y"
  by (simp add: round_ties_even_def Let_def)

lemma pow2_pos: "0 < pow2 e"
  by (simp add: pow2_def)

lemma binary64_pos_nonneg: "0 \<le> x \<Longrightarrow> 0 \<le> binary64_pos x"
  using pow2_pos by (simp add: binary64_pos_def Let_def round_ties_even_nonneg less_imp_le)

lemma binary64_nonneg: "0 \<le> x \<Longrightarrow> 0 \<le> binary64 x"
  by (simp add: binary64_def binary64_pos_nonneg)

lemma scrollPercentage_nonneg:
  assumes "bottom_nonneg v"
  shows "0 \<le> scrollPercentage v"
proof -
  let ?p = "js_or (scrollY v) (js_or (pageYOffset v) (scrollTop v))"
  have "0 \<le> js_add ?p (innerHeight v)"
    using assms by (simp add: js_add_def bottom_nonneg_def binary64_nonneg)
  then have "0 \<le> js_div (js_add ?p (innerHeight v)) (scrollHeight v)"
    using assms by (simp add: js_div_def bottom_nonneg_def binary64_nonneg)
  then show ?thesis
    by (simp add: scrollPercentage_def js_mul_def binary64_nonneg)
qed

lemma calculateScrollDepth_eq:
  "calculateScrollDepth v =
     (if scrollHeight v = 0 then 0 else min (Math_round (scrollPercentage v)) 100)"
  by (simp add: calculateScrollDepth_def scrollPercentage_def Let_def)

lemma calculateScrollDepth_le: "calculateScrollDepth v \<le> 100"
  by (simp add: calculateScrollDepth_eq)

lemma calculateScrollDepth_ge_iff:
  "0 \<le> calculateScrollDepth v \<longleftrightarrow> scrollHeight v = 0 \<or> - (1 / 2) \<le> scrollPercentage v"
  by (auto simp: calculateScrollDepth_eq Math_round_def)

lemma calculateScrollDepth_ge:
  assumes "bottom_nonneg v"
  shows "0 \<le> calculateScrollDepth v"
proof -
  have "- (1 / 2) \<le> scrollPercentage v"
    using scrollPercentage_nonneg [OF assms] by simp
  then show ?thesis
    by (simp add: calculateScrollDepth_ge_iff)
qed

lemma psm_step_scrollDepth_le:
  "scrollDepth (page m) \<le> 100 \<Longrightarrow> scrollDepth (page (psm_step m sg)) \<le> 100"
  by (cases sg)
     (simp_all add: handleVisibilityChange_def handlePageLifecycle_def enterState_def
        creditActive_def resetIdleTimer_def startIdleTimer_def handleScroll_def
        handleUserActivity_def idleCallback_def destroy_def Let_def calculateScrollDepth_le
        split: option.split)

lemma psm_step_scrollDepth_ge:
  "0 \<le> scrollDepth (page m) \<Longrightarrow> scroll_nonneg sg \<Longrightarrow>
   0 \<le> scrollDepth (page (psm_step m sg))"
  by (cases sg)
     (simp_all add: handleVisibilityChange_def handlePageLifecycle_def enterState_def
        creditActive_def resetIdleTimer_def startIdleTimer_def handleScroll_def
        handleUserActivity_def idleCallback_def destroy_def Let_def calculateScrollDepth_ge
        split: option.split)

lemma psm_run_scrollDepth_le:
  "scrollDepth (page m) \<le> 100 \<Longrightarrow> scrollDepth (page (psm_run m sigs)) \<le> 100"
  unfolding psm_run_def
  by (induction sigs arbitrary: m) (simp_all add: psm_step_scrollDepth_le)

lemma psm_run_scrollDepth_ge:
  "0 \<le> scrollDepth (page m) \<Longrightarrow> \<forall>sg\<in>set sigs. scroll_nonneg sg \<Longrightarrow>
   0 \<le> scrollDepth (page (psm_run m sigs))"
  unfolding psm_run_def
  by (induction sigs arbitrary: m) (simp_all add: psm_step_scrollDepth_ge)

lemma new_scrollDepth: "scrollDepth (page (PageStateManager_new timeout t0)) = 0"
  by (simp add: PageStateManager_new_def startIdleTimer_def)

text \<open>
  C6, as the code has it. The depth computed for a scroll signal is 0 when the document
  height is 0 and otherwise \<open>min(Math.round(p), 100)\<close>, where \<open>p\<close> is
  \<open>(scrollOffset + viewportHeight) / documentHeight * 100\<close> in binary64 arithmetic: the
  code caps at 100 and has no lower clamp. So the depth is at most 100 for all inputs; it
  is at least 0 exactly when the document height is 0 or \<open>p\<close> is at least -1/2, which is
  the case whenever offset plus viewport height and the document height are not negative.
  The current scroll-depth field of a manager is at most 100 after any sequence of signals,
  and at least 0 when every scroll signal met that condition.
\<close>

theorem scrollDepth_bounds:
  "(scrollHeight v = 0 \<longrightarrow> calculateScrollDepth v = 0) \<and>
   (scrollHeight v \<noteq> 0 \<longrightarrow>
      calculateScrollDepth v =
        min (Math_round
               (js_mul (js_div (js_add (js_or (scrollY v) (js_or (pageYOffset v) (scrollTop v)))
                                       (innerHeight v)) (scrollHeight v)) 100)) 100) \<and>
   calculateScrollDepth v \<le> 100 \<and>
   (0 \<le> calculateScrollDepth v \<longleftrightarrow>
      scrollHeight v = 0 \<or>
      - (1 / 2) \<le> js_mul (js_div (js_add (js_or (scrollY v) (js_or (pageYOffset v) (scrollTop v)))
                                           (innerHeight v)) (scrollHeight v)) 100) \<and>
   (bottom_nonneg v \<longrightarrow> 0 \<le> calculateScrollDepth v) \<and>
   scrollDepth (page (psm_run (PageStateManager_new timeout t0) sigs)) \<le> 100 \<and>
   ((\<forall>sg\<in>set sigs. scroll_nonneg sg) \<longrightarrow>
      0 \<le> scrollDepth (page (psm_run (PageStateManager_new timeout t0) sigs)))"
proof (intro conjI impI)
  show "calculateScrollDepth v = 0" if "scrollHeight v = 0"
    using that by (simp add: calculateScrollDepth_eq)
  show "calculateScrollDepth v =
        min (Math_round
               (js_mul (js_div (js_add (js_or (scrollY v) (js_or (pageYOffset v) (scrollTop v)))
                                       (innerHeight v)) (scrollHeight v)) 100)) 100"
    if "scrollHeight v \<noteq> 0"
    using that by (simp add: calculateScrollDepth_eq scrollPercentage_def)
  show "calculateScrollDepth v \<le> 100"
    by (rule calculateScrollDepth_le)
  show "0 \<le> calculateScrollDepth v \<longleftrightarrow>
      scrollHeight v = 0 \<or>
      - (1 / 2) \<le> js_mul (js_div (js_add (js_or (scrollY v) (js_or (pageYOffset v) (scrollTop v)))
                                           (innerHeight v)) (scrollHeight v)) 100"
    using calculateScrollDepth_ge_iff [of v] by (simp add: scrollPercentage_def)
  show "0 \<le> calculateScrollDepth v" if "bottom_nonneg v"
    using that by (rule calculateScrollDepth_ge)
  show "scrollDepth (page (psm_run (PageStateManager_new timeout t0) sigs)) \<le> 100"
    by (rule psm_run_scrollDepth_le) (simp add: new_scrollDepth)
  show "0 \<le> scrollDepth (page (psm_run (PageStateManager_new timeout t0) sigs))"
    if "\<forall>sg\<in>set sigs. scroll_nonneg sg"
    using that by (intro psm_run_scrollDepth_ge) (simp_all add: new_scrollDepth)
qed

text \<open>
  The values at the pages of the specification's scenario (viewport 800, document 2000:
  offset 200 gives 50, offset 700 gives 75, offset 1200 is capped at 100), at a page where
  binary64 rounding decides (viewport 600, offset 530, document 2000: the percentage is
  just below 56.5 and the depth is 56), at a page pulled 50 past its top (depth 38), and at
  a document of height 0.
\<close>

theorem scrollDepth_bounds_witness:
  "calculateScrollDepth \<lparr>innerHeight = 800, scrollY = 200, pageYOffset = 200, scrollTop = 200,
                          scrollHeight = 2000\<rparr> = 50 \<and>
   calculateScrollDepth \<lparr>innerHeight = 800, scrollY = 700, pageYOffset = 700, scrollTop = 700,
                          scrollHeight = 2000\<rparr> = 75 \<and>
   calculateScrollDepth \<lparr>innerHeight = 800, scrollY = 1200, pageYOffset = 1200,
                          scrollTop = 1200, scrollHeight = 2000\<rparr> = 100 \<and>
   calculateScrollDepth \<lparr>innerHeight = 600, scrollY = 530, pageYOffset = 530, scrollTop = 530,
                          scrollHeight = 2000\<rparr> = 56 \<and>
   bottom_nonneg \<lparr>innerHeight = 800, scrollY = - 50, pageYOffset = - 50, scrollTop = 0,
                   scrollHeight = 2000\<rparr> \<and>
   calculateScrollDepth \<lparr>innerHeight = 800, scrollY = - 50, pageYOffset = - 50, scrollTop = 0,
                          scrollHeight = 2000\<rparr> = 38 \<and>
   calculateScrollDepth \<lparr>innerHeight = 800, scrollY = 0, pageYOffset = 0, scrollTop = 0,
                          scrollHeight = 0\<rparr> = 0 \<and>
   scroll_nonneg (Scroll \<lparr>innerHeight = 800, scrollY = - 50, pageYOffset = - 50, scrollTop = 0,
                           scrollHeight = 2000\<rparr>) \<and>
   0 \<le> scrollDepth (page (psm_run (PageStateManager_new 30000 0)
          [Scroll \<lparr>innerHeight = 800, scrollY = - 50, pageYOffset = - 50, scrollTop = 0,
                    scrollHeight = 2000\<rparr>]))"
proof -
  have r1: "Math_round (js_mul (js_div (js_add 200 800) 2000) 100) = 50"
    and r2: "Math_round (js_mul (js_div (js_add 700 800) 2000) 100) = 75"
    and r3: "Math_round (js_mul (js_div (js_add 1200 800) 2000) 100) = 100"
    and r4: "Math_round (js_mul (js_div (js_add 530 600) 2000) 100) = 56"
    and r5: "Math_round (js_mul (js_div (js_add (- 50) 800) 2000) 100) = 38"
    by code_simp+
  have b: "bottom_nonneg \<lparr>innerHeight = 800, scrollY = - 50, pageYOffset = - 50, scrollTop = 0,
                           scrollHeight = 2000\<rparr>"
    by (simp add: bottom_nonneg_def js_or_def)
  show ?thesis
    using
      scrollDepth_bounds [of "\<lparr>innerHeight = 800, scrollY = 200, pageYOffset = 200,
                                scrollTop = 200, scrollHeight = 2000\<rparr>" 30000 0 "[]"]
      scrollDepth_bounds [of "\<lparr>innerHeight = 800, scrollY = 700, pageYOffset = 700,
                                scrollTop = 700, scrollHeight = 2000\<rparr>" 30000 0 "[]"]
      scrollDepth_bounds [of "\<lparr>innerHeight = 800, scrollY = 1200, pageYOffset = 1200,
                                scrollTop = 1200, scrollHeight = 2000\<rparr>" 30000 0 "[]"]
      scrollDepth_bounds [of "\<lparr>innerHeight = 600, scrollY = 530, pageYOffset = 530,
                                scrollTop = 530, scrollHeight = 2000\<rparr>" 30000 0 "[]"]
      scrollDepth_bounds [of "\<lparr>innerHeight = 800, scrollY = - 50, pageYOffset = - 50,
                                scrollTop = 0, scrollHeight = 2000\<rparr>" 30000 0
         "[Scroll \<lparr>innerHeight = 800, scrollY = - 50, pageYOffset = - 50, scrollTop = 0,
                    scrollHeight = 2000\<rparr>]"]
      scrollDepth_bounds [of "\<lparr>innerHeight = 800, scrollY = 0, pageYOffset = 0,
                                scrollTop = 0, scrollHeight = 0\<rparr>" 30000 0 "[]"]
    by (simp add: js_or_def r1 r2 r3 r4 r5 b)
qed

text \<open>
  The claim as stated fails below zero: with the viewport 800 high and the page pulled 900
  past its top (offset -900) on a document 2000 high, the depth is
  \<open>round(-100 / 2000 * 100) = -5\<close>.
\<close>

theorem scrollDepth_negative:
  "\<not> (0 \<le> calculateScrollDepth \<lparr>innerHeight = 800, scrollY = - 900, pageYOffset = - 900,
                                  scrollTop = 0, scrollHeight = 2000\<rparr> \<and>
       calculateScrollDepth \<lparr>innerHeight = 800, scrollY = - 900, pageYOffset = - 900,
                             scrollTop = 0, scrollHeight = 2000\<rparr> \<le> 100)"
  by code_simp

section \<open>Active duration\<close>

text \<open>
  C3. A manager is created at instant 0 with an idle timeout of 30000 ms, the timeout fires
  at 30000 and the next activity signal arrives at 100000. Queried at 100000 before that
  signal the active duration is 30000; queried at the same instant after it, it is 100000:
  the 70000 ms of idle time are counted, because \<^verbatim>\<open>handleUserActivity\<close> clears the idle
  flag and leaves the state-start instant where the idle timeout pinned it.
\<close>

theorem idle_interval_counted_after_resume:
  "getActiveDuration 100000 (psm_run (PageStateManager_new 30000 0) [IdleTimeout 30000]) = 30000 \<and>
   getActiveDuration 100000
     (psm_run (PageStateManager_new 30000 0) [IdleTimeout 30000, UserActivity 100000]) = 100000"
  by (simp add: psm_run_def PageStateManager_new_def startIdleTimer_def idleCallback_def
      handleUserActivity_def resetIdleTimer_def getActiveDuration_def)

section \<open>Unload handler\<close>

text \<open>
  C9. After the unload handler has run, the session property map is empty and the project
  and visitor property maps are what they were before; the handler is a total function of
  the tracker state (it returns a state for every input: no exception leaves it).
\<close>

theorem unload_clears_session_only:
  "sessionData (unloadHandler eid throws host t) = [] \<and>
   projectData (unloadHandler eid throws host t) = projectData t \<and>
   visitorData (unloadHandler eid throws host t) = visitorData t"
  by (simp add: unloadHandler_def detectSessionEnd_def clearSessionProperties_def
      sendFinalEvent_def Let_def)

section \<open>Construction of the event queue\<close>

lemma new_unavailable:
  assumes "\<not> available st"
  shows "heap (EventQueue_new mr st now) = []"
    and "queue (EventQueue_new mr st now) = []"
    and "storage (EventQueue_new mr st now) = st"
    and "warnings (EventQueue_new mr st now) = [NoLocalStorage]"
  using assms
  by (simp_all add: EventQueue_new_def loadFromLocalStorage_def warn_def)

lemma processNext_fields:
  "heap (fst (processNext w q)) = heap q \<and> queue (fst (processNext w q)) = queue q \<and>
   storage (fst (processNext w q)) = storage q \<and>
   maxRetries (fst (processNext w q)) = maxRetries q"
  by (simp add: processNext_def retry_def warn_def split: list.split item.split)

lemma process_loop_fields:
  "heap (process_loop q) = heap q \<and> queue (process_loop q) = queue q \<and>
   storage (process_loop q) = storage q \<and> maxRetries (process_loop q) = maxRetries q"
  using processNext_fields [of Loop q]
  by (cases "processNext Loop q")
     (simp add: process_loop_def process_abort_def warn_def split: option.split)

lemma process_fields:
  "heap (process q) = heap q \<and> queue (process q) = queue q \<and>
   storage (process q) = storage q \<and> maxRetries (process q) = maxRetries q"
  using process_loop_fields [of "q\<lparr>processing := True\<rparr>"]
  by (simp add: process_def)

lemma processNext_warnings:
  "set (warnings (fst (processNext w q))) \<subseteq> set (warnings q) \<union> {SendFailedWillRetry}"
  by (auto simp: processNext_def retry_def warn_def split: list.split item.split)

lemma process_warnings:
  "set (warnings (process q)) \<subseteq> set (warnings q) \<union> {SendFailedWillRetry, ProcessingError}"
  using processNext_warnings [of Loop "q\<lparr>processing := True\<rparr>"]
  by (cases "processNext Loop (q\<lparr>processing := True\<rparr>)")
     (auto simp: process_def process_loop_def process_abort_def warn_def split: option.split)

lemma process_quiet:
  assumes "queue q = [] \<or> heap q ! hd (queue q) \<noteq> Null"
  shows "warnings (process q) = warnings q"
  using assms
  by (cases "queue q")
     (auto simp: process_def process_loop_def processNext_def split: item.split)

lemma new_snapshot:
  assumes "available st" "content st = Some (Snapshot events)"
  shows "heap (EventQueue_new mr st now) = events"
    and "queue (EventQueue_new mr st now) = [0..<length events]"
    and "storage (EventQueue_new mr st now) = st\<lparr>content := None\<rparr>"
    and "LoadFailedCorrupted \<notin> set (warnings (EventQueue_new mr st now))"
    and "events = [] \<or> hd events \<noteq> Null \<Longrightarrow> warnings (EventQueue_new mr st now) = []"
proof -
  let ?q = "\<lparr>heap = events, queue = [0..<length events], processing = False,
            maxRetries = mr, storage = st\<lparr>content := None\<rparr>, clock = now, timers = [],
            inflight = [], attempts = [], delivered = [], warnings = []\<rparr>"
  have new: "EventQueue_new mr st now = (if events \<noteq> [] then process ?q else ?q)"
    using assms
    by (simp add: EventQueue_new_def loadFromLocalStorage_def load_try_def removeItem_def Let_def)
  show "heap (EventQueue_new mr st now) = events"
    and "queue (EventQueue_new mr st now) = [0..<length events]"
    and "storage (EventQueue_new mr st now) = st\<lparr>content := None\<rparr>"
    using process_fields [of ?q] by (simp_all add: new)
  show "LoadFailedCorrupted \<notin> set (warnings (EventQueue_new mr st now))"
    using process_warnings [of ?q] by (auto simp: new)
  show "warnings (EventQueue_new mr st now) = []" if "events = [] \<or> hd events \<noteq> Null"
  proof (cases "events = []")
    case True
    then show ?thesis by (simp add: new)
  next
    case False
    then have "heap ?q ! hd (queue ?q) \<noteq> Null"
      using that by (simp add: hd_conv_nth upt_conv_Cons)
    then have "warnings (process ?q) = warnings ?q"
      by (intro process_quiet) simp
    then show ?thesis using False by (simp add: new)
  qed
qed

lemma new_missing:
  assumes "available st" "content st = None \<or> content st = Some EmptyString"
  shows "heap (EventQueue_new mr st now) = []"
    and "queue (EventQueue_new mr st now) = []"
    and "storage (EventQueue_new mr st now) = st"
    and "warnings (EventQueue_new mr st now) = []"
  using assms
  by (auto simp add: EventQueue_new_def loadFromLocalStorage_def load_try_def)

lemma new_corrupt:
  assumes "available st" "content st = Some Corrupt"
  shows "heap (EventQueue_new mr st now) = []"
    and "queue (EventQueue_new mr st now) = []"
    and "storage (EventQueue_new mr st now) = st\<lparr>content := None\<rparr>"
    and "warnings (EventQueue_new mr st now) = [LoadFailedCorrupted]"
  using assms
  by (simp_all add: EventQueue_new_def loadFromLocalStorage_def load_try_def removeItem_def warn_def)

lemma new_fresh:
  assumes "content st = None"
  shows "queue (EventQueue_new mr st now) = []"
    and "inflight (EventQueue_new mr st now) = []"
    and "maxRetries (EventQueue_new mr st now) = mr"
    and "heap (EventQueue_new mr st now) = []"
    and "delivered (EventQueue_new mr st now) = []"
    and "attempts (EventQueue_new mr st now) = []"
    and "timers (EventQueue_new mr st now) = []"
    and "processing (EventQueue_new mr st now) = False"
  using assms
  by (simp_all add: EventQueue_new_def loadFromLocalStorage_def load_try_def warn_def)

text \<open>
  C7, as the code has it. Construction from a stored text that parses and spreads appends
  the values it yields to the queue once, in order, whether they are events or not, clears
  the key at once and logs no load failure (nothing at all, unless the first value is
  \<^verbatim>\<open>null\<close>, on which the first send fails); a second construction on the resulting
  storage finds no events. A missing key, and also a key holding the empty string (which
  the guard \<^verbatim>\<open>if (serialized)\<close> skips), gives an empty queue and leaves storage and console
  untouched. A non-empty text on which parsing or spreading throws is discarded: the queue
  is empty, the key is cleared and the warning is logged. Without \<^verbatim>\<open>localStorage\<close> the
  queue is empty and a warning is logged. The constructor returns a queue in every case.
\<close>

theorem construction_load:
  "(\<not> available st \<longrightarrow>
      queue (EventQueue_new mr st now) = [] \<and>
      storage (EventQueue_new mr st now) = st \<and>
      warnings (EventQueue_new mr st now) = [NoLocalStorage]) \<and>
   (available st \<and> content st = Some (Snapshot events) \<longrightarrow>
      heap (EventQueue_new mr st now) = events \<and>
      queue (EventQueue_new mr st now) = [0..<length events] \<and>
      storage (EventQueue_new mr st now) = st\<lparr>content := None\<rparr> \<and>
      LoadFailedCorrupted \<notin> set (warnings (EventQueue_new mr st now)) \<and>
      (events = [] \<or> hd events \<noteq> Null \<longrightarrow> warnings (EventQueue_new mr st now) = []) \<and>
      queue (EventQueue_new mr' (storage (EventQueue_new mr st now)) now') = []) \<and>
   (available st \<and> (content st = None \<or> content st = Some EmptyString) \<longrightarrow>
      queue (EventQueue_new mr st now) = [] \<and>
      storage (EventQueue_new mr st now) = st \<and>
      warnings (EventQueue_new mr st now) = []) \<and>
   (available st \<and> content st = Some Corrupt \<longrightarrow>
      queue (EventQueue_new mr st now) = [] \<and>
      storage (EventQueue_new mr st now) = st\<lparr>content := None\<rparr> \<and>
      warnings (EventQueue_new mr st now) = [LoadFailedCorrupted])"
proof (intro conjI impI)
  assume "\<not> available st"
  then show "queue (EventQueue_new mr st now) = []"
    and "storage (EventQueue_new mr st now) = st"
    and "warnings (EventQueue_new mr st now) = [NoLocalStorage]"
    by (simp_all add: new_unavailable)
next
  assume a: "available st \<and> content st = Some (Snapshot events)"
  show "heap (EventQueue_new mr st now) = events"
    and "queue (EventQueue_new mr st now) = [0..<length events]"
    and s: "storage (EventQueue_new mr st now) = st\<lparr>content := None\<rparr>"
    and "LoadFailedCorrupted \<notin> set (warnings (EventQueue_new mr st now))"
    using a by (simp_all add: new_snapshot)
  show "warnings (EventQueue_new mr st now) = []" if "events = [] \<or> hd events \<noteq> Null"
    using a that by (simp add: new_snapshot)
  have "available (st\<lparr>content := None\<rparr>)"
    and "content (st\<lparr>content := None\<rparr>) = None \<or>
      content (st\<lparr>content := None\<rparr>) = Some EmptyString"
    using a by simp_all
  then show "queue (EventQueue_new mr' (storage (EventQueue_new mr st now)) now') = []"
    unfolding s by (rule new_missing(2))
next
  assume "available st \<and> (content st = None \<or> content st = Some EmptyString)"
  then show "queue (EventQueue_new mr st now) = []"
    and "storage (EventQueue_new mr st now) = st"
    and "warnings (EventQueue_new mr st now) = []"
    by (simp_all add: new_missing)
next
  assume "available st \<and> content st = Some Corrupt"
  then show "queue (EventQueue_new mr st now) = []"
    and "storage (EventQueue_new mr st now) = st\<lparr>content := None\<rparr>"
    and "warnings (EventQueue_new mr st now) = [LoadFailedCorrupted]"
    by (simp_all add: new_corrupt)
qed

text \<open>
  The cases at concrete storages: the snapshot of the repository's test (\<^verbatim>\<open>'test-1'\<close>),
  the JSON text \<^verbatim>\<open>"abc"\<close> (a string, spread into three characters), a missing key, a
  corrupted value, and no \<^verbatim>\<open>localStorage\<close>.
\<close>

theorem construction_load_witness:
  "heap (EventQueue_new 3 \<lparr>available = True, writable = True,
      content = Some (Snapshot [Event \<lparr>ev_id = ''test-1'', endpoint = ''/track/'',
         data = [(''event'', JStr ''test1'')], timestamp = 5, retries = 0\<rparr>])\<rparr> 10) =
     [Event \<lparr>ev_id = ''test-1'', endpoint = ''/track/'', data = [(''event'', JStr ''test1'')],
       timestamp = 5, retries = 0\<rparr>] \<and>
   queue (EventQueue_new 3 \<lparr>available = True, writable = True,
      content = Some (Snapshot [Event \<lparr>ev_id = ''test-1'', endpoint = ''/track/'',
         data = [(''event'', JStr ''test1'')], timestamp = 5, retries = 0\<rparr>])\<rparr> 10) = [0] \<and>
   content (storage (EventQueue_new 3 \<lparr>available = True, writable = True,
      content = Some (Snapshot [Event \<lparr>ev_id = ''test-1'', endpoint = ''/track/'',
         data = [(''event'', JStr ''test1'')], timestamp = 5, retries = 0\<rparr>])\<rparr> 10)) = None \<and>
   queue (EventQueue_new 3 (storage (EventQueue_new 3 \<lparr>available = True, writable = True,
      content = Some (Snapshot [Event \<lparr>ev_id = ''test-1'', endpoint = ''/track/'',
         data = [(''event'', JStr ''test1'')], timestamp = 5, retries = 0\<rparr>])\<rparr> 10)) 10) = [] \<and>
   heap (EventQueue_new 3 \<lparr>available = True, writable = True,
      content = Some (Snapshot [Primitive, Primitive, Primitive])\<rparr> 10) =
     [Primitive, Primitive, Primitive] \<and>
   queue (EventQueue_new 3 \<lparr>available = True, writable = True,
      content = Some (Snapshot [Primitive, Primitive, Primitive])\<rparr> 10) = [0, 1, 2] \<and>
   content (storage (EventQueue_new 3 \<lparr>available = True, writable = True,
      content = Some (Snapshot [Primitive, Primitive, Primitive])\<rparr> 10)) = None \<and>
   warnings (EventQueue_new 3 \<lparr>available = True, writable = True,
      content = Some (Snapshot [Primitive, Primitive, Primitive])\<rparr> 10) = [] \<and>
   queue (EventQueue_new 3 \<lparr>available = True, writable = True, content = None\<rparr> 10) = [] \<and>
   queue (EventQueue_new 3 \<lparr>available = True, writable = True, content = Some Corrupt\<rparr> 10) = [] \<and>
   content (storage (EventQueue_new 3
      \<lparr>available = True, writable = True, content = Some Corrupt\<rparr> 10)) = None \<and>
   warnings (EventQueue_new 3 \<lparr>available = True, writable = True, content = Some Corrupt\<rparr> 10) =
     [LoadFailedCorrupted] \<and>
   warnings (EventQueue_new 3 \<lparr>available = False, writable = True, content = None\<rparr> 10) =
     [NoLocalStorage]"
  using
    construction_load [of "\<lparr>available = True, writable = True,
      content = Some (Snapshot [Event \<lparr>ev_id = ''test-1'', endpoint = ''/track/'',
         data = [(''event'', JStr ''test1'')], timestamp = 5, retries = 0\<rparr>])\<rparr>" 3 10
      "[Event \<lparr>ev_id = ''test-1'', endpoint = ''/track/'', data = [(''event'', JStr ''test1'')],
         timestamp = 5, retries = 0\<rparr>]" 3 10]
    construction_load [of "\<lparr>available = True, writable = True,
      content = Some (Snapshot [Primitive, Primitive, Primitive])\<rparr>" 3 10
      "[Primitive, Primitive, Primitive]" 3 10]
    construction_load [of "\<lparr>available = True, writable = True, content = None\<rparr>" 3 10 "[]" 3 10]
    construction_load [of "\<lparr>available = True, writable = True, content = Some Corrupt\<rparr>"
      3 10 "[]" 3 10]
    construction_load [of "\<lparr>available = False, writable = True, content = None\<rparr>"
      3 10 "[]" 3 10]
  by (simp add: upt_conv_Cons)

text \<open>
  The claim as stated fails for two stored values. The empty string is not a JSON text, and
  yet the key is not cleared and nothing is logged. The JSON text \<^verbatim>\<open>"abc"\<close> is not a
  snapshot, and yet it is not discarded: its three characters are queued, and no warning is
  logged.
\<close>

theorem malformed_not_discarded:
  "\<not> (content (storage (EventQueue_new 3 \<lparr>available = True, writable = True,
                                             content = Some EmptyString\<rparr> 0)) = None \<and>
       LoadFailedCorrupted \<in> set (warnings (EventQueue_new 3 \<lparr>available = True, writable = True,
                                             content = Some EmptyString\<rparr> 0))) \<and>
   \<not> (queue (EventQueue_new 3 \<lparr>available = True, writable = True,
                 content = Some (Snapshot [Primitive, Primitive, Primitive])\<rparr> 0) = [] \<and>
       LoadFailedCorrupted \<in> set (warnings (EventQueue_new 3 \<lparr>available = True, writable = True,
                 content = Some (Snapshot [Primitive, Primitive, Primitive])\<rparr> 0)))"
  by code_simp

section \<open>Retry exhaustion\<close>

text \<open>
  C1. One event is enqueued on a fresh queue with the default \<^verbatim>\<open>maxRetries\<close> of 3 and the transport
  rejects every attempt. After the third rejection (and after both retry timeouts have
  come due) the queue is empty, the warning "failed after 3 retries" is logged, and storage
  holds the snapshot of the empty queue: \<^verbatim>\<open>retry\<close> shifts the event out before
  \<^verbatim>\<open>saveToLocalStorage\<close> serialises \<^verbatim>\<open>this.queue\<close>, so the exhausted event is not in
  the snapshot.
\<close>

theorem exhausted_event_not_persisted:
  "queue (run (EventQueue_new DEFAULT_MAX_RETRIES \<lparr>available = True, writable = True, content = None\<rparr> 0)
      [Enqueue ''e1'' ''/track/'' [(''event'', JStr ''save_test'')],
       Settle 0 False, Settle 0 False, Settle 0 False,
       Advance 1000, Fire 0, Advance 1000, Fire 0, Advance 5000]) = [] \<and>
   content (storage (run (EventQueue_new DEFAULT_MAX_RETRIES \<lparr>available = True, writable = True, content = None\<rparr> 0)
      [Enqueue ''e1'' ''/track/'' [(''event'', JStr ''save_test'')],
       Settle 0 False, Settle 0 False, Settle 0 False,
       Advance 1000, Fire 0, Advance 1000, Fire 0, Advance 5000])) = Some (Snapshot []) \<and>
   warnings (run (EventQueue_new DEFAULT_MAX_RETRIES \<lparr>available = True, writable = True, content = None\<rparr> 0)
      [Enqueue ''e1'' ''/track/'' [(''event'', JStr ''save_test'')],
       Settle 0 False, Settle 0 False, Settle 0 False,
       Advance 1000, Fire 0, Advance 1000, Fire 0, Advance 5000]) =
     [SendFailedWillRetry, SendFailedWillRetry, SendFailedWillRetry,
      FailedAfterRetries ''e1'' 3]"
  by code_simp

section \<open>Retries and backoff\<close>

lemma retry_delay_values:
  "retry_delay 1 = 1000 \<and> retry_delay 2 = 2000 \<and> retry_delay 3 = 4000 \<and>
   (3 \<le> n \<longrightarrow> retry_delay n = 4000)"
  by (auto simp: retry_delay_def RETRY_DELAYS_def nth_Cons split: nat.splits)

text \<open>
  C4. An event is enqueued at instant 0 and its first attempt is rejected at instant 50,
  with two retries left. \<^verbatim>\<open>retry\<close> schedules a timeout due at 1050, and the drain loop of
  \<^verbatim>\<open>process\<close>, which finds the queue still non-empty, hands the same event to the
  transport again at instant 50.
\<close>

theorem head_retried_without_backoff:
  "attempts (run (EventQueue_new 3 \<lparr>available = True, writable = True, content = None\<rparr> 0)
      [Enqueue ''e1'' ''/track/'' [(''event'', JStr ''retry_test'')],
       Advance 50, Settle 0 False]) =
     [\<lparr>a_ref = 0, a_time = 0, a_beacon = False\<rparr>,
      \<lparr>a_ref = 0, a_time = 50, a_beacon = False\<rparr>] \<and>
   timers (run (EventQueue_new 3 \<lparr>available = True, writable = True, content = None\<rparr> 0)
      [Enqueue ''e1'' ''/track/'' [(''event'', JStr ''retry_test'')],
       Advance 50, Settle 0 False]) = [1050]"
  by code_simp

text \<open>
  C2. The transport rejects the first attempt of an event and accepts every later one
  (\<open>k = 1\<close>, \<^verbatim>\<open>maxRetries = 3\<close>). The drain loop starts the second attempt at once; the
  retry timeout comes due at 1000 while that attempt is still under way, and its callback
  starts a third attempt of the same event. Both are accepted: the event is delivered
  twice.
\<close>

theorem duplicate_successful_delivery:
  "delivered (run (EventQueue_new 3 \<lparr>available = True, writable = True, content = None\<rparr> 0)
      [Enqueue ''e1'' ''/track/'' [(''event'', JStr ''retry_test'')],
       Settle 0 False, Advance 1000, Fire 0, Settle 0 True, Settle 0 True]) = [0, 0] \<and>
   map a_ref (attempts (run (EventQueue_new 3 \<lparr>available = True, writable = True, content = None\<rparr> 0)
      [Enqueue ''e1'' ''/track/'' [(''event'', JStr ''retry_test'')],
       Settle 0 False, Advance 1000, Fire 0, Settle 0 True, Settle 0 True])) = [0, 0, 0]"
  by code_simp

section \<open>Retry counters of queued events\<close>

lemma retries_inv_frame:
  assumes "heap q' = heap q" "queue q' = queue q" "inflight q' = inflight q"
    "maxRetries q' = maxRetries q"
  shows "retries_inv q' = retries_inv q"
  by (simp add: retries_inv_def assms)

lemma retries_inv_warn [simp]: "retries_inv (warn w q) = retries_inv q"
  by (rule retries_inv_frame) (simp_all add: warn_def)

lemma retries_inv_save [simp]: "retries_inv (saveToLocalStorage q) = retries_inv q"
  by (rule retries_inv_frame) (simp_all add: saveToLocalStorage_def warn_def)

lemma retries_inv_processing [simp]: "retries_inv (q\<lparr>processing := b\<rparr>) = retries_inv q"
  by (rule retries_inv_frame) simp_all

lemma retries_inv_timers [simp]: "retries_inv (q\<lparr>timers := ts\<rparr>) = retries_inv q"
  by (rule retries_inv_frame) simp_all

lemma retries_inv_clock [simp]: "retries_inv (q\<lparr>clock := c\<rparr>) = retries_inv q"
  by (rule retries_inv_frame) simp_all

lemma retries_inv_delivered [simp]: "retries_inv (q\<lparr>delivered := ds\<rparr>) = retries_inv q"
  by (rule retries_inv_frame) simp_all

lemma retries_inv_warnings [simp]: "retries_inv (q\<lparr>warnings := ws\<rparr>) = retries_inv q"
  by (rule retries_inv_frame) simp_all

lemma retries_inv_abort [simp]: "retries_inv (process_abort q) = retries_inv q"
  by (rule retries_inv_frame) (simp_all add: process_abort_def warn_def)

lemma drop1_tl: "drop 1 xs = tl xs"
  by (simp add: drop_Suc)

lemma in_tl: "x \<in> set (tl xs) \<Longrightarrow> x \<in> set xs"
  by (cases xs) auto

lemma retries_inv_shift: "retries_inv q \<Longrightarrow> retries_inv (shift q)"
  unfolding retries_inv_def shift_def drop1_tl
  by (auto simp: distinct_tl dest: in_tl)

lemma retries_inv_attempt:
  assumes "retries_inv q" "queue q = r # rs"
  shows "retries_inv (q\<lparr>attempts := as, inflight := inflight q @ [(r, w)]\<rparr>)"
  using assms unfolding retries_inv_def drop1_tl
  by auto

lemma retry_stuck:
  "heap q ! r = Null \<or> heap q ! r = Primitive \<Longrightarrow> retry r q = (q, Some TypeError)"
  by (auto simp: retry_def)

lemma retries_inv_processNext: "retries_inv q \<Longrightarrow> retries_inv (fst (processNext w q))"
proof (cases "queue q")
  case Nil
  then show "retries_inv q \<Longrightarrow> ?thesis" by (simp add: processNext_def)
next
  case (Cons r rs)
  assume inv: "retries_inv q"
  show ?thesis
  proof (cases "heap q ! r = Null")
    case True
    then have "processNext w q = (warn SendFailedWillRetry q, Some TypeError)"
      using Cons by (simp add: processNext_def retry_stuck warn_def)
    then show ?thesis using inv by simp
  next
    case False
    then have "fst (processNext w q) =
        q\<lparr>attempts := attempts q @ [\<lparr>a_ref = r, a_time = clock q, a_beacon = False\<rparr>],
          inflight := inflight q @ [(r, w)]\<rparr>"
      using Cons by (simp add: processNext_def split: item.split)
    then show ?thesis
      using retries_inv_attempt [OF inv Cons] by simp
  qed
qed

lemma retries_inv_process_loop: "retries_inv q \<Longrightarrow> retries_inv (process_loop q)"
  using retries_inv_processNext [of q Loop]
  by (cases "processNext Loop q") (simp add: process_loop_def split: option.split)

lemma retries_inv_process: "retries_inv q \<Longrightarrow> retries_inv (process q)"
  by (simp add: process_def retries_inv_process_loop)

lemma drop1_snoc: "set (drop 1 (xs @ [x])) \<subseteq> set (drop 1 xs) \<union> {x}"
  by (cases xs) auto

lemma retries_inv_push:
  assumes "retries_inv q" "below_max (maxRetries q) x"
  shows "retries_inv (q\<lparr>heap := heap q @ [x], queue := queue q @ [length (heap q)]\<rparr>)"
proof -
  have d: "distinct (queue q @ [length (heap q)])"
    using assms(1) unfolding retries_inv_def by auto
  have r: "\<forall>r\<in>set (queue q @ [length (heap q)]).
             r < length (heap q @ [x]) \<and> below_max (maxRetries q) ((heap q @ [x]) ! r)"
    using assms unfolding retries_inv_def by (auto simp: nth_append)
  have i: "\<forall>r\<in>fst ` set (inflight q).
             r < length (heap q @ [x]) \<and> r \<notin> set (drop 1 (queue q @ [length (heap q)]))"
  proof
    fix r assume "r \<in> fst ` set (inflight q)"
    then have "r < length (heap q)" "r \<notin> set (drop 1 (queue q))"
      using assms(1) unfolding retries_inv_def by auto
    then show "r < length (heap q @ [x]) \<and> r \<notin> set (drop 1 (queue q @ [length (heap q)]))"
      using drop1_snoc [of "queue q" "length (heap q)"] by auto
  qed
  show ?thesis
    unfolding retries_inv_def using d r i by simp
qed

lemma retries_inv_enqueue:
  assumes "retries_inv q" "1 \<le> maxRetries q"
  shows "retries_inv (enqueue eid ep d q)"
proof -
  let ?e = "Event \<lparr>ev_id = eid, endpoint = ep, data = d, timestamp = clock q, retries = 0\<rparr>"
  have "retries_inv (q\<lparr>heap := heap q @ [?e], queue := queue q @ [length (heap q)]\<rparr>)"
    using assms by (intro retries_inv_push) simp_all
  then show ?thesis
    by (simp add: enqueue_def Let_def retries_inv_process)
qed

lemma nth_update_cases: "(h[r := x]) ! j = (if j = r \<and> r < length h then x else h ! j)"
  by (cases "r < length h") (simp_all add: nth_list_update list_update_beyond)

lemma retries_inv_update_keep:
  assumes "retries_inv q" "r \<in> set (queue q) \<longrightarrow> below_max (maxRetries q) x"
    and "heap q' = (heap q)[r := x]" "queue q' = queue q" "inflight q' = inflight q"
    "maxRetries q' = maxRetries q"
  shows "retries_inv q'"
  using assms(1,2) unfolding retries_inv_def assms(3-6)
  by (simp add: nth_update_cases)

lemma retries_inv_update_drop:
  assumes "retries_inv q" "r \<notin> set (drop 1 (queue q))"
    and "heap q' = (heap q)[r := x]" "queue q' = drop 1 (queue q)" "inflight q' = inflight q"
    "maxRetries q' = maxRetries q"
  shows "retries_inv q'"
  using assms(1,2) unfolding retries_inv_def assms(3-6) drop1_tl
  by (auto simp: nth_update_cases distinct_tl dest: in_tl)

lemma retries_inv_retry_foreign:
  assumes "retries_inv q" "r \<notin> set (drop 1 (queue q))" "\<not> below_max (maxRetries q) (heap q ! r)"
  shows "retries_inv (retry_foreign r x i n q)"
proof (cases "reached n (maxRetries q)")
  case True
  show ?thesis
    by (rule retries_inv_update_drop [OF assms(1,2), where x = x])
       (simp_all add: retry_foreign_def Let_def True saveToLocalStorage_def warn_def shift_def)
next
  case False
  have "r \<notin> set (queue q)"
    using assms(1,3) unfolding retries_inv_def by auto
  then have "r \<in> set (queue q) \<longrightarrow> below_max (maxRetries q) x"
    by simp
  then show ?thesis
    by (rule retries_inv_update_keep [OF assms(1), where x = x])
       (simp_all add: retry_foreign_def Let_def False)
qed

lemma retries_inv_retry:
  assumes "retries_inv q" "r \<notin> set (drop 1 (queue q))"
  shows "retries_inv (fst (retry r q))"
proof (cases "heap q ! r")
  case (Event e)
  show ?thesis
  proof (cases "maxRetries q \<le> Suc (retries e)")
    case True
    show ?thesis
      by (rule retries_inv_update_drop [OF assms, where x = "Event (e\<lparr>retries := Suc (retries e)\<rparr>)"])
         (simp_all add: retry_def Event Let_def True saveToLocalStorage_def warn_def shift_def)
  next
    case False
    then have "r \<in> set (queue q) \<longrightarrow>
        below_max (maxRetries q) (Event (e\<lparr>retries := Suc (retries e)\<rparr>))"
      by simp
    then show ?thesis
      by (rule retries_inv_update_keep [OF assms(1)])
         (simp_all add: retry_def Event Let_def False)
  qed
next
  case (Object i n)
  then show ?thesis
    using retries_inv_retry_foreign [OF assms] by (simp add: retry_def)
next
  case (ArrayValue n)
  then show ?thesis
    using retries_inv_retry_foreign [OF assms] by (simp add: retry_def)
next
  case Primitive
  then show ?thesis using assms(1) by (simp add: retry_stuck)
next
  case Null
  then show ?thesis using assms(1) by (simp add: retry_stuck)
qed

lemma set_remove_nth: "set (take i xs @ drop (Suc i) xs) \<subseteq> set xs"
  by (auto dest: in_set_takeD in_set_dropD)

lemma retries_inv_unflight:
  assumes "retries_inv q"
  shows "retries_inv (q\<lparr>inflight := take i (inflight q) @ drop (Suc i) (inflight q)\<rparr>)"
proof -
  have "set (take i (inflight q) @ drop (Suc i) (inflight q)) \<subseteq> set (inflight q)"
    by (rule set_remove_nth)
  then show ?thesis
    using assms unfolding retries_inv_def by (simp del: set_append) blast
qed

lemma retries_inv_settle:
  assumes "retries_inv q"
  shows "retries_inv (settle i ok q)"
proof (cases "i < length (inflight q)")
  case False
  then show ?thesis using assms by (simp add: settle_def)
next
  case True
  obtain r w where rw: "inflight q ! i = (r, w)" by (cases "inflight q ! i")
  let ?q1 = "q\<lparr>inflight := take i (inflight q) @ drop (Suc i) (inflight q)\<rparr>"
  let ?res = "if ok then (shift (?q1\<lparr>delivered := delivered ?q1 @ [r]\<rparr>), None)
              else retry r (warn SendFailedWillRetry ?q1)"
  obtain q2 err where res: "?res = (q2, err)" by (cases ?res)
  have "r \<in> fst ` set (inflight q)"
    using True rw by (metis fst_conv image_eqI nth_mem)
  then have r: "r \<notin> set (drop 1 (queue q))"
    using assms unfolding retries_inv_def by auto
  have q1: "retries_inv ?q1" by (rule retries_inv_unflight [OF assms])
  have "retries_inv (fst ?res)"
  proof (cases ok)
    case True
    then show ?thesis using q1 by (simp add: retries_inv_shift)
  next
    case False
    have "retries_inv (fst (retry r (warn SendFailedWillRetry ?q1)))"
      using q1 r by (intro retries_inv_retry) (simp_all add: warn_def)
    then show ?thesis using False by simp
  qed
  then have q2: "retries_inv q2"
    by (simp add: res)
  have "retries_inv (case (w, err) of
                 (Loop, None) \<Rightarrow> process_loop q2
               | (Loop, Some e) \<Rightarrow> process_abort q2
               | (Timer, None) \<Rightarrow> q2
               | (Timer, Some e) \<Rightarrow> warn RetryError q2)"
    using q2 by (cases w; cases err) (simp_all add: retries_inv_process_loop)
  then show ?thesis
    using True rw res by (simp add: settle_def Let_def)
qed

lemma retries_inv_fire: "retries_inv q \<Longrightarrow> retries_inv (fire i q)"
proof -
  assume inv: "retries_inv q"
  let ?q1 = "q\<lparr>timers := take i (timers q) @ drop (Suc i) (timers q)\<rparr>"
  have "retries_inv (fst (processNext Timer ?q1))"
    using inv by (intro retries_inv_processNext) simp
  then have "retries_inv (case processNext Timer ?q1 of
                      (q', None) \<Rightarrow> q'
                    | (q', Some e) \<Rightarrow> warn RetryError q')"
    by (cases "processNext Timer ?q1") (simp split: option.split)
  then show ?thesis
    using inv by (simp add: fire_def Let_def)
qed

lemma flush_loop_fields:
  "heap (flush_loop throws rs q) = heap q \<and>
   maxRetries (flush_loop throws rs q) = maxRetries q \<and>
   inflight (flush_loop throws rs q) = inflight q \<and>
   queue (flush_loop throws rs q) =
     queue q @ filter (\<lambda>r. heap q ! r = Null \<or> throws r) rs"
  by (induction rs arbitrary: q) (simp_all add: Let_def warn_def)

lemma drop1_filter: "set (drop 1 (filter P xs)) \<subseteq> set (drop 1 xs)"
  by (cases xs) (auto dest: in_set_dropD)

lemma retries_inv_flush:
  assumes "retries_inv q"
  shows "retries_inv (flush throws q)"
proof -
  let ?q1 = "flush_loop throws (queue q) (q\<lparr>queue := []\<rparr>)"
  let ?P = "\<lambda>r. heap q ! r = Null \<or> throws r"
  have f: "heap ?q1 = heap q" "maxRetries ?q1 = maxRetries q" "inflight ?q1 = inflight q"
    "queue ?q1 = filter ?P (queue q)"
    using flush_loop_fields [of throws "queue q" "q\<lparr>queue := []\<rparr>"] by simp_all
  have "retries_inv ?q1"
    using assms drop1_filter [of ?P "queue q"]
    unfolding retries_inv_def f by auto
  then show ?thesis
    by (simp add: flush_def Let_def)
qed

lemma retries_inv_step:
  assumes "retries_inv q" "1 \<le> maxRetries q"
  shows "retries_inv (step q a)"
  using assms
  by (cases a)
     (simp_all add: retries_inv_enqueue retries_inv_process retries_inv_flush
        retries_inv_settle retries_inv_fire)

lemma retry_maxRetries [simp]: "maxRetries (fst (retry r q)) = maxRetries q"
  by (simp add: retry_def retry_foreign_def Let_def shift_def warn_def saveToLocalStorage_def
      split: item.split)

lemma maxRetries_step [simp]: "maxRetries (step q a) = maxRetries q"
proof (cases a)
  case (Enqueue eid ep d)
  then show ?thesis by (simp add: enqueue_def Let_def process_fields)
next
  case Process
  then show ?thesis by (simp add: process_fields)
next
  case (Flush throws)
  then show ?thesis
    by (simp add: flush_def Let_def flush_loop_fields saveToLocalStorage_def warn_def)
next
  case (Settle i ok)
  show ?thesis
  proof (cases "i < length (inflight q)")
    case False
    then show ?thesis using Settle by (simp add: settle_def)
  next
    case True
    obtain r w where rw: "inflight q ! i = (r, w)" by (cases "inflight q ! i")
    let ?q1 = "q\<lparr>inflight := take i (inflight q) @ drop (Suc i) (inflight q)\<rparr>"
    let ?res = "if ok then (shift (?q1\<lparr>delivered := delivered ?q1 @ [r]\<rparr>), None)
                else retry r (warn SendFailedWillRetry ?q1)"
    obtain q2 err where res: "?res = (q2, err)" by (cases ?res)
    have "maxRetries (fst ?res) = maxRetries q"
      by (simp add: shift_def warn_def)
    then have "maxRetries q2 = maxRetries q"
      by (simp add: res)
    then have "maxRetries (case (w, err) of
                 (Loop, None) \<Rightarrow> process_loop q2
               | (Loop, Some e) \<Rightarrow> process_abort q2
               | (Timer, None) \<Rightarrow> q2
               | (Timer, Some e) \<Rightarrow> warn RetryError q2) = maxRetries q"
      by (cases w; cases err) (simp_all add: process_loop_fields process_abort_def warn_def)
    then show ?thesis
      using Settle True rw res by (simp add: settle_def Let_def)
  qed
next
  case (Fire i)
  let ?q1 = "q\<lparr>timers := take i (timers q) @ drop (Suc i) (timers q)\<rparr>"
  have "maxRetries (case processNext Timer ?q1 of
                      (q', None) \<Rightarrow> q'
                    | (q', Some e) \<Rightarrow> warn RetryError q') = maxRetries q"
    using processNext_fields [of Timer ?q1]
    by (cases "processNext Timer ?q1") (simp add: warn_def split: option.split)
  then show ?thesis
    using Fire by (simp add: fire_def Let_def)
next
  case (Advance dt)
  then show ?thesis by simp
qed

lemma retries_inv_run:
  assumes "retries_inv q" "1 \<le> maxRetries q"
  shows "retries_inv (run q acts) \<and> maxRetries (run q acts) = maxRetries q"
  using assms unfolding run_def
  by (induction acts arbitrary: q) (simp_all add: retries_inv_step)

text \<open>
  C10. A queue is constructed with \<^verbatim>\<open>maxRetries\<close> at least 1 on a storage with no
  persisted snapshot. After any sequence of calls of \<^verbatim>\<open>enqueue\<close>, \<^verbatim>\<open>process\<close> and
  \<^verbatim>\<open>flush\<close>, interleaved in any way with settled attempts, retry timeouts and the
  passing of time, every value in the in-memory queue is an event with a retry counter
  strictly below \<^verbatim>\<open>maxRetries\<close>: the step that raises a counter to \<^verbatim>\<open>maxRetries\<close> also
  removes the event.
\<close>

theorem queued_retries_below_max:
  assumes "1 \<le> mr" and "content st = None"
  shows "\<forall>r\<in>set (queue (run (EventQueue_new mr st now) acts)).
           below_max mr (heap (run (EventQueue_new mr st now) acts) ! r)"
proof -
  let ?init = "EventQueue_new mr st now"
  have "retries_inv ?init"
    by (simp add: retries_inv_def new_fresh [OF assms(2)])
  moreover have "1 \<le> maxRetries ?init"
    using assms(1) by (simp add: new_fresh [OF assms(2)])
  ultimately have "retries_inv (run ?init acts)" and "maxRetries (run ?init acts) = mr"
    using retries_inv_run [of ?init acts] by (simp_all add: new_fresh [OF assms(2)])
  then show ?thesis
    by (simp add: retries_inv_def)
qed

text \<open>
  One rejected attempt on a queue with \<^verbatim>\<open>maxRetries = 3\<close>: the event stays queued with
  counter 1.
\<close>

theorem queued_retries_below_max_witness:
  "(1::nat) \<le> 3 \<and>
   content \<lparr>available = True, writable = True, content = None\<rparr> = None \<and>
   queue (run (EventQueue_new 3 \<lparr>available = True, writable = True, content = None\<rparr> 0)
      [Enqueue ''e1'' ''/track/'' [], Settle 0 False]) = [0] \<and>
   below_max 3 (heap (run (EventQueue_new 3 \<lparr>available = True, writable = True, content = None\<rparr> 0)
      [Enqueue ''e1'' ''/track/'' [], Settle 0 False]) ! 0) \<and>
   heap (run (EventQueue_new 3 \<lparr>available = True, writable = True, content = None\<rparr> 0)
      [Enqueue ''e1'' ''/track/'' [], Settle 0 False]) ! 0 =
     Event \<lparr>ev_id = ''e1'', endpoint = ''/track/'', data = [], timestamp = 0, retries = 1\<rparr>"
proof -
  let ?q = "run (EventQueue_new 3 \<lparr>available = True, writable = True, content = None\<rparr> 0)
      [Enqueue ''e1'' ''/track/'' [], Settle 0 False]"
  have q: "queue ?q = [0]"
    by code_simp
  have h: "heap ?q ! 0 =
     Event \<lparr>ev_id = ''e1'', endpoint = ''/track/'', data = [], timestamp = 0, retries = 1\<rparr>"
    by code_simp
  have "\<forall>r\<in>set (queue ?q). below_max 3 (heap ?q ! r)"
    by (rule queued_retries_below_max) simp_all
  then have "below_max 3 (heap ?q ! 0)"
    unfolding q by simp
  then show ?thesis
    using q h by simp
qed

section \<open>Delivery order\<close>

lemma fifo_at_process_loop:
  assumes "fifo_idle k q"
  shows "fifo_at k (process_loop q)"
proof (cases "k < length (heap q)")
  case False
  then show ?thesis
    using assms by (simp add: fifo_idle_def fifo_at_def busy_at_def process_loop_def)
next
  case True
  then have qu: "queue q = k # [Suc k..<length (heap q)]"
    using assms by (simp add: fifo_idle_def upt_conv_Cons)
  show ?thesis
  proof (cases "heap q ! k = Null")
    case True
    then have "processNext Loop q = (warn SendFailedWillRetry q, Some TypeError)"
      by (simp add: processNext_def qu retry_def warn_def)
    then show ?thesis
      using assms True
      by (simp add: process_loop_def qu process_abort_def warn_def fifo_idle_def fifo_at_def
          busy_at_def)
  next
    case False
    then have "processNext Loop q =
        (q\<lparr>attempts := attempts q @ [\<lparr>a_ref = k, a_time = clock q, a_beacon = False\<rparr>],
           inflight := inflight q @ [(k, Loop)]\<rparr>, None)"
      by (simp add: processNext_def qu split: item.split)
    then show ?thesis
      using assms False \<open>k < length (heap q)\<close>
      by (auto simp: process_loop_def qu fifo_idle_def fifo_at_def busy_at_def)
  qed
qed

lemma fifo_at_process:
  assumes "fifo_at k q"
  shows "fifo_at k (process q)"
proof (cases "processing q")
  case True
  then show ?thesis using assms by (simp add: process_def)
next
  case False
  then have "fifo_idle k (q\<lparr>processing := True\<rparr>)"
    using assms by (simp add: fifo_at_def fifo_idle_def)
  then have "fifo_at k (process_loop (q\<lparr>processing := True\<rparr>))"
    by (rule fifo_at_process_loop)
  then show ?thesis using False by (simp add: process_def)
qed

lemma fifo_at_enqueue:
  assumes "fifo_at k q"
  shows "fifo_at k (enqueue eid ep d q)"
proof -
  let ?e = "Event \<lparr>ev_id = eid, endpoint = ep, data = d, timestamp = clock q, retries = 0\<rparr>"
  let ?q1 = "q\<lparr>heap := heap q @ [?e], queue := queue q @ [length (heap q)]\<rparr>"
  have b: "busy_at k ?q1 = (busy_at k q \<or> k = length (heap q))"
    using assms by (auto simp: busy_at_def fifo_at_def nth_append)
  show ?thesis
  proof (cases "processing q")
    case True
    then have "busy_at k q" using assms by (simp add: fifo_at_def)
    then have "fifo_at k ?q1"
      using assms b by (simp add: fifo_at_def busy_at_def)
    then show ?thesis using True by (simp add: enqueue_def Let_def)
  next
    case False
    then have nb: "\<not> busy_at k q" using assms by (simp add: fifo_at_def)
    have "fifo_idle k (?q1\<lparr>processing := True\<rparr>)"
      using assms nb by (simp add: fifo_at_def fifo_idle_def)
    then have "fifo_at k (process_loop (?q1\<lparr>processing := True\<rparr>))"
      by (rule fifo_at_process_loop)
    then show ?thesis using False by (simp add: enqueue_def Let_def process_def)
  qed
qed

lemma fifo_at_settle:
  assumes "fifo_at k q"
  shows "fifo_at (if i < length (inflight q) then Suc k else k) (settle i True q)"
proof (cases "i < length (inflight q)")
  case False
  then show ?thesis using assms by (simp add: settle_def)
next
  case True
  then have b: "busy_at k q" and i: "i = 0"
    using assms by (auto simp: fifo_at_def split: if_splits)
  have ne: "k < length (heap q)"
    using b by (simp add: busy_at_def)
  have fl: "inflight q = [(k, Loop)]" and qu: "queue q = [k..<length (heap q)]"
    and de: "delivered q = [0..<k]" and p: "processing q"
    and at: "map a_ref (attempts q) = [0..<Suc k]" and ti: "timers q = []"
    using assms b by (simp_all add: fifo_at_def)
  let ?q2 = "shift (q\<lparr>inflight := [], delivered := delivered q @ [k]\<rparr>)"
  have "fifo_idle (Suc k) ?q2"
    using ne by (simp add: fifo_idle_def shift_def de qu p at ti)
  then have "fifo_at (Suc k) (process_loop ?q2)"
    by (rule fifo_at_process_loop)
  moreover have "settle i True q = process_loop ?q2"
    by (simp add: settle_def i fl Let_def)
  ultimately show ?thesis
    using True by simp
qed

lemma fifo_at_fire: "fifo_at k q \<Longrightarrow> fifo_at k (fire i q)"
  by (simp add: fifo_at_def fire_def)

lemma fifo_at_advance: "fifo_at k q \<Longrightarrow> fifo_at k (q\<lparr>clock := c\<rparr>)"
  by (simp add: fifo_at_def busy_at_def)

lemma fifo_invI: "fifo_at k q \<Longrightarrow> fifo_inv q"
  unfolding fifo_inv_def by (rule exI)

lemma fifo_inv_step:
  assumes "fifo_inv q" "accepting a"
  shows "fifo_inv (step q a)"
proof -
  obtain k where k: "fifo_at k q"
    using assms(1) unfolding fifo_inv_def by (rule exE)
  show ?thesis
  proof (cases a)
    case (Enqueue eid ep d)
    then show ?thesis by (simp add: fifo_invI [OF fifo_at_enqueue [OF k]])
  next
    case Process
    then show ?thesis by (simp add: fifo_invI [OF fifo_at_process [OF k]])
  next
    case (Flush throws)
    then show ?thesis using assms(2) by simp
  next
    case (Settle i ok)
    then have "ok" using assms(2) by simp
    then show ?thesis
      using Settle by (simp add: fifo_invI [OF fifo_at_settle [OF k]])
  next
    case (Fire i)
    then show ?thesis by (simp add: fifo_invI [OF fifo_at_fire [OF k]])
  next
    case (Advance dt)
    then show ?thesis by (simp add: fifo_invI [OF fifo_at_advance [OF k]])
  qed
qed

lemma fifo_inv_run:
  assumes "fifo_inv q" "\<forall>a\<in>set acts. accepting a"
  shows "fifo_inv (run q acts)"
  using assms unfolding run_def
  by (induction acts arbitrary: q) (simp_all add: fifo_inv_step)

lemma fifo_at_new: "fifo_at 0 (EventQueue_new mr st now)"
proof (cases "available st")
  case False
  then show ?thesis
    by (simp add: EventQueue_new_def loadFromLocalStorage_def warn_def fifo_at_def busy_at_def)
next
  case True
  show ?thesis
  proof (cases "\<exists>events. content st = Some (Snapshot events) \<and> events \<noteq> []")
    case False
    then show ?thesis
      using True
      by (auto simp: EventQueue_new_def loadFromLocalStorage_def load_try_def removeItem_def
          warn_def fifo_at_def busy_at_def split: option.split stored.split)
  next
    case snap: True
    then obtain events where c: "content st = Some (Snapshot events)" and ne: "events \<noteq> []"
      by auto
    let ?q = "\<lparr>heap = events, queue = [0..<length events], processing = True,
              maxRetries = mr, storage = st\<lparr>content := None\<rparr>, clock = now, timers = [],
              inflight = [], attempts = [], delivered = [], warnings = []\<rparr>"
    have "EventQueue_new mr st now = process_loop ?q"
      using True c ne
      by (simp add: EventQueue_new_def loadFromLocalStorage_def load_try_def removeItem_def
          Let_def process_def)
    moreover have "fifo_idle 0 ?q"
      by (simp add: fifo_idle_def)
    ultimately show ?thesis
      using fifo_at_process_loop [of 0 ?q] by simp
  qed
qed

lemma enqueued_Cons: "enqueued (a # acts) = enqueued [a] @ enqueued acts"
  by (cases a) simp_all

lemma map_update_same: "f x = f (h ! r) \<Longrightarrow> map f (h[r := x]) = map f h"
  by (rule nth_equalityI) (simp_all add: nth_update_cases)

lemma retry_heap:
  "map handed (heap (fst (retry r q))) = map handed (heap q) \<and>
   length (heap (fst (retry r q))) = length (heap q) \<and>
   (Null \<notin> set (heap q) \<longrightarrow> Null \<notin> set (heap (fst (retry r q))))"
proof -
  have upd: "Null \<notin> set (h[r := x])" if "Null \<notin> set h" "x \<noteq> Null" for h :: "item list" and x
    using that set_update_subset_insert [of h r x] by auto
  show ?thesis
    by (cases "heap q ! r")
       (auto simp: retry_def retry_foreign_def Let_def shift_def warn_def saveToLocalStorage_def
          map_update_same event_key_def upd)
qed

lemma processNext_heap: "heap (fst (processNext w q)) = heap q"
  by (simp add: processNext_fields)

lemma settle_heap:
  "map handed (heap (settle i ok q)) = map handed (heap q) \<and>
   length (heap (settle i ok q)) = length (heap q) \<and>
   (Null \<notin> set (heap q) \<longrightarrow> Null \<notin> set (heap (settle i ok q)))"
proof (cases "i < length (inflight q)")
  case False
  then show ?thesis by (simp add: settle_def)
next
  case True
  obtain r w where rw: "inflight q ! i = (r, w)" by (cases "inflight q ! i")
  let ?q1 = "q\<lparr>inflight := take i (inflight q) @ drop (Suc i) (inflight q)\<rparr>"
  let ?res = "if ok then (shift (?q1\<lparr>delivered := delivered ?q1 @ [r]\<rparr>), None)
              else retry r (warn SendFailedWillRetry ?q1)"
  obtain q2 err where res: "?res = (q2, err)" by (cases ?res)
  have "map handed (heap (fst ?res)) = map handed (heap q) \<and>
        length (heap (fst ?res)) = length (heap q) \<and>
        (Null \<notin> set (heap q) \<longrightarrow> Null \<notin> set (heap (fst ?res)))"
    using retry_heap [of r "warn SendFailedWillRetry ?q1"]
    by (simp add: shift_def warn_def)
  then have q2: "map handed (heap q2) = map handed (heap q) \<and>
        length (heap q2) = length (heap q) \<and>
        (Null \<notin> set (heap q) \<longrightarrow> Null \<notin> set (heap q2))"
    by (simp add: res)
  have "heap (case (w, err) of
                 (Loop, None) \<Rightarrow> process_loop q2
               | (Loop, Some e) \<Rightarrow> process_abort q2
               | (Timer, None) \<Rightarrow> q2
               | (Timer, Some e) \<Rightarrow> warn RetryError q2) = heap q2"
    by (cases w; cases err) (simp_all add: process_loop_fields process_abort_def warn_def)
  moreover have "settle i ok q = (case (w, err) of
                 (Loop, None) \<Rightarrow> process_loop q2
               | (Loop, Some e) \<Rightarrow> process_abort q2
               | (Timer, None) \<Rightarrow> q2
               | (Timer, Some e) \<Rightarrow> warn RetryError q2)"
    using True rw res by (simp add: settle_def Let_def)
  ultimately show ?thesis
    using q2 by simp
qed

lemma fire_heap: "heap (fire i q) = heap q"
proof -
  let ?q1 = "q\<lparr>timers := take i (timers q) @ drop (Suc i) (timers q)\<rparr>"
  have "heap (case processNext Timer ?q1 of
                      (q', None) \<Rightarrow> q'
                    | (q', Some e) \<Rightarrow> warn RetryError q') = heap q"
    using processNext_fields [of Timer ?q1]
    by (cases "processNext Timer ?q1") (simp add: warn_def split: option.split)
  then show ?thesis
    by (simp add: fire_def Let_def)
qed

lemma flush_heap: "heap (flush throws q) = heap q"
  by (simp add: flush_def Let_def flush_loop_fields saveToLocalStorage_def warn_def)

lemma heap_step:
  "map handed (heap (step q a)) = map handed (heap q) @ map Some (enqueued [a]) \<and>
   (Null \<notin> set (heap q) \<longrightarrow> Null \<notin> set (heap (step q a)))"
  by (cases a)
     (simp_all add: enqueue_def Let_def process_fields settle_heap fire_heap flush_heap
        event_key_def)

lemma heap_run:
  "map handed (heap (run q acts)) = map handed (heap q) @ map Some (enqueued acts) \<and>
   (Null \<notin> set (heap q) \<longrightarrow> Null \<notin> set (heap (run q acts)))"
  unfolding run_def
proof (induction acts arbitrary: q)
  case Nil
  show ?case by simp
next
  case (Cons a acts)
  show ?case
    using Cons.IH [of "step q a"] heap_step [of q a] enqueued_Cons [of a acts]
    by simp
qed

lemma heap_new: "heap (EventQueue_new mr st now) = replayed st"
proof (cases "available st")
  case False
  then show ?thesis by (simp add: new_unavailable replayed_def)
next
  case True
  then show ?thesis
    by (cases "content st"; cases "the (content st)")
       (simp_all add: replayed_def new_snapshot new_missing new_corrupt)
qed

lemma map_nth_upt: "m \<le> length xs \<Longrightarrow> map (\<lambda>i. xs ! i) [0..<m] = take m xs"
  by (rule nth_equalityI) simp_all

lemma fifo_inv_observed:
  assumes "fifo_inv q"
  shows "observed q = take (length (attempts q)) (map handed (heap q))"
    and "inflight q = [] \<Longrightarrow> Null \<notin> set (heap q) \<Longrightarrow> length (attempts q) = length (heap q)"
proof -
  obtain k where k: "fifo_at k q"
    using assms unfolding fifo_inv_def by (rule exE)
  let ?m = "if busy_at k q then Suc k else k"
  have refs: "map a_ref (attempts q) = [0..<?m]"
    using k by (simp add: fifo_at_def)
  have "length (map a_ref (attempts q)) = ?m"
    unfolding refs by simp
  then have m: "length (attempts q) = ?m"
    by simp
  have le: "?m \<le> length (heap q)"
    using k by (simp add: fifo_at_def busy_at_def)
  have "observed q = map (\<lambda>r. handed (heap q ! r)) (map a_ref (attempts q))"
    by (simp add: observed_def comp_def)
  also have "\<dots> = map handed (map (\<lambda>r. heap q ! r) [0..<?m])"
    unfolding refs by simp
  also have "\<dots> = take ?m (map handed (heap q))"
    using le by (simp only: map_nth_upt take_map)
  finally show "observed q = take (length (attempts q)) (map handed (heap q))"
    unfolding m .
  show "length (attempts q) = length (heap q)" if "inflight q = []" "Null \<notin> set (heap q)"
  proof -
    have nb: "\<not> busy_at k q"
      using k that(1) by (auto simp: fifo_at_def split: if_splits)
    have "\<not> k < length (heap q)"
    proof
      assume "k < length (heap q)"
      then have "heap q ! k \<in> set (heap q)" by simp
      then have "heap q ! k \<noteq> Null" using that(2) by auto
      then show False using nb \<open>k < length (heap q)\<close> by (simp add: busy_at_def)
    qed
    then show ?thesis
      using k m nb by (simp add: fifo_at_def)
  qed
qed

lemma fifo_at_order: "fifo_at k q \<Longrightarrow> order_inv q"
  by (auto simp: fifo_at_def order_inv_def busy_at_def sorted_append split: if_splits)

lemma order_inv_frame:
  assumes "length (heap q') = length (heap q)" "queue q' = queue q" "attempts q' = attempts q"
  shows "order_inv q' = order_inv q"
  by (simp add: order_inv_def assms)

lemma order_inv_shift: "order_inv q \<Longrightarrow> order_inv (shift q)"
  unfolding order_inv_def shift_def
  by (cases "queue q") (auto simp: sorted_append)

lemma order_inv_retry: "order_inv q \<Longrightarrow> order_inv (fst (retry r q))"
proof -
  assume inv: "order_inv q"
  have keep: "order_inv q'"
    if "length (heap q') = length (heap q)" "queue q' = queue q" "attempts q' = attempts q" for q'
    using inv order_inv_frame [OF that] by simp
  have drop: "order_inv q'"
    if "length (heap q') = length (heap q)" "queue q' = drop 1 (queue q)"
      "attempts q' = attempts q" for q'
  proof -
    have "order_inv q' = order_inv (shift q)"
      by (rule order_inv_frame) (simp_all add: that shift_def)
    then show ?thesis using inv by (simp add: order_inv_shift)
  qed
  show ?thesis
  proof (cases "heap q ! r")
    case (Event e)
    show ?thesis
    proof (cases "maxRetries q \<le> Suc (retries e)")
      case True
      then show ?thesis
        using Event
        by (auto simp: retry_def Let_def saveToLocalStorage_def shift_def warn_def intro!: drop)
    next
      case False
      then show ?thesis
        using Event by (auto simp: retry_def Let_def intro!: keep)
    qed
  next
    case (Object i n)
    have "order_inv (retry_foreign r x i' n' q)" for x i' n'
    proof (cases "reached n' (maxRetries q)")
      case True
      then show ?thesis
        by (auto simp: retry_foreign_def Let_def saveToLocalStorage_def shift_def warn_def
              intro!: drop)
    next
      case False
      then show ?thesis
        by (auto simp: retry_foreign_def Let_def intro!: keep)
    qed
    then show ?thesis
      by (simp add: retry_def Object)
  next
    case (ArrayValue n)
    have "order_inv (retry_foreign r x i' n' q)" for x i' n'
    proof (cases "reached n' (maxRetries q)")
      case True
      then show ?thesis
        by (auto simp: retry_foreign_def Let_def saveToLocalStorage_def shift_def warn_def
              intro!: drop)
    next
      case False
      then show ?thesis
        by (auto simp: retry_foreign_def Let_def intro!: keep)
    qed
    then show ?thesis
      by (simp add: retry_def ArrayValue)
  next
    case Primitive
    then show ?thesis using inv by (simp add: retry_stuck)
  next
    case Null
    then show ?thesis using inv by (simp add: retry_stuck)
  qed
qed

lemma order_inv_processNext: "order_inv q \<Longrightarrow> order_inv (fst (processNext w q))"
proof (cases "queue q")
  case Nil
  then show "order_inv q \<Longrightarrow> ?thesis" by (simp add: processNext_def)
next
  case (Cons r rs)
  assume inv: "order_inv q"
  show ?thesis
  proof (cases "heap q ! r = Null")
    case True
    then have "processNext w q = (warn SendFailedWillRetry q, Some TypeError)"
      using Cons by (simp add: processNext_def retry_stuck warn_def)
    then show ?thesis using inv by (simp add: order_inv_def warn_def)
  next
    case False
    then have "fst (processNext w q) =
        q\<lparr>attempts := attempts q @ [\<lparr>a_ref = r, a_time = clock q, a_beacon = False\<rparr>],
          inflight := inflight q @ [(r, w)]\<rparr>"
      using Cons by (simp add: processNext_def split: item.split)
    then show ?thesis
      using inv Cons by (auto simp: order_inv_def sorted_append)
  qed
qed

lemma order_inv_process_loop: "order_inv q \<Longrightarrow> order_inv (process_loop q)"
proof -
  assume inv: "order_inv q"
  have "order_inv (fst (processNext Loop q))"
    using inv by (rule order_inv_processNext)
  moreover have "order_inv (process_abort q')" if "order_inv q'" for q'
    using that by (simp add: order_inv_def process_abort_def warn_def)
  moreover have "order_inv (q\<lparr>processing := False\<rparr>)"
    using inv by (simp add: order_inv_def)
  ultimately show ?thesis
    by (cases "processNext Loop q") (simp add: process_loop_def split: option.split)
qed

lemma order_inv_process: "order_inv q \<Longrightarrow> order_inv (process q)"
proof -
  assume a: "order_inv q"
  have "order_inv (q\<lparr>processing := True\<rparr>)"
    using a by (simp add: order_inv_def)
  then show ?thesis
    using a by (simp add: process_def order_inv_process_loop)
qed

lemma order_inv_enqueue:
  assumes "order_inv q"
  shows "order_inv (enqueue eid ep d q)"
proof -
  let ?e = "Event \<lparr>ev_id = eid, endpoint = ep, data = d, timestamp = clock q, retries = 0\<rparr>"
  have "order_inv (q\<lparr>heap := heap q @ [?e], queue := queue q @ [length (heap q)]\<rparr>)"
    using assms unfolding order_inv_def
    by (auto simp: sorted_append less_imp_le intro!: less_SucI)
  then show ?thesis
    by (simp add: enqueue_def Let_def order_inv_process)
qed

lemma order_inv_settle:
  assumes "order_inv q"
  shows "order_inv (settle i ok q)"
proof (cases "i < length (inflight q)")
  case False
  then show ?thesis using assms by (simp add: settle_def)
next
  case True
  obtain r w where rw: "inflight q ! i = (r, w)" by (cases "inflight q ! i")
  let ?q1 = "q\<lparr>inflight := take i (inflight q) @ drop (Suc i) (inflight q)\<rparr>"
  let ?res = "if ok then (shift (?q1\<lparr>delivered := delivered ?q1 @ [r]\<rparr>), None)
              else retry r (warn SendFailedWillRetry ?q1)"
  obtain q2 err where res: "?res = (q2, err)" by (cases ?res)
  have q1: "order_inv ?q1"
    using assms by (simp add: order_inv_def)
  have "order_inv (fst ?res)"
  proof (cases ok)
    case True
    have "order_inv (?q1\<lparr>delivered := delivered ?q1 @ [r]\<rparr>)"
      using q1 by (simp add: order_inv_def)
    then show ?thesis using True by (simp add: order_inv_shift)
  next
    case False
    have "order_inv (warn SendFailedWillRetry ?q1)"
      using q1 by (simp add: order_inv_def warn_def)
    then show ?thesis using False by (simp add: order_inv_retry)
  qed
  then have q2: "order_inv q2"
    by (simp add: res)
  have "order_inv (case (w, err) of
                 (Loop, None) \<Rightarrow> process_loop q2
               | (Loop, Some e) \<Rightarrow> process_abort q2
               | (Timer, None) \<Rightarrow> q2
               | (Timer, Some e) \<Rightarrow> warn RetryError q2)"
    using q2
    by (cases w; cases err)
       (simp_all add: order_inv_process_loop, simp_all add: order_inv_def process_abort_def warn_def)
  then show ?thesis
    using True rw res by (simp add: settle_def Let_def)
qed

lemma order_inv_fire: "order_inv q \<Longrightarrow> order_inv (fire i q)"
proof -
  assume a: "order_inv q"
  let ?q1 = "q\<lparr>timers := take i (timers q) @ drop (Suc i) (timers q)\<rparr>"
  have q1: "order_inv ?q1"
    using a by (simp add: order_inv_def)
  then have "order_inv (fst (processNext Timer ?q1))"
    by (rule order_inv_processNext)
  then have "order_inv (case processNext Timer ?q1 of
                      (q', None) \<Rightarrow> q'
                    | (q', Some e) \<Rightarrow> warn RetryError q')"
    by (cases "processNext Timer ?q1") (simp add: order_inv_def warn_def split: option.split)
  then show ?thesis
    using a q1 by (simp add: fire_def Let_def)
qed

lemma order_inv_step:
  assumes "order_inv q" "no_flush a"
  shows "order_inv (step q a)"
proof (cases a)
  case (Advance dt)
  then show ?thesis using assms(1) by (simp add: order_inv_def)
qed (use assms in \<open>simp_all add: order_inv_enqueue order_inv_process order_inv_settle order_inv_fire\<close>)

lemma order_inv_run:
  assumes "order_inv q" "\<forall>a\<in>set acts. no_flush a"
  shows "order_inv (run q acts)"
  using assms unfolding run_def
  by (induction acts arbitrary: q) (simp_all add: order_inv_step)

lemma attempts_sorted:
  assumes "\<forall>a\<in>set acts. no_flush a"
  shows "sorted (map a_ref (attempts (run (EventQueue_new mr st now) acts)))"
proof -
  have "order_inv (EventQueue_new mr st now)"
    using fifo_at_new by (rule fifo_at_order)
  then have "order_inv (run (EventQueue_new mr st now) acts)"
    using assms by (rule order_inv_run)
  then show ?thesis
    by (simp add: order_inv_def sorted_append)
qed

text \<open>
  C5. A queue is constructed on any storage; what construction replays from a persisted
  snapshot is queued ahead of every enqueued event. When the transport accepts every
  attempt, then after any sequence of \<^verbatim>\<open>enqueue\<close> (and \<^verbatim>\<open>process\<close>) calls, interleaved
  in any way with the transport's answers and the passing of time, what has been handed to
  the transport so far is, in order and without repetition, an initial segment of the
  replayed values followed by the events in the order they were enqueued; in particular
  the attempts that follow those of the replayed values are an initial segment of the
  enqueued events in the order they were enqueued. Once no attempt is under way, and
  provided that no replayed value is \<^verbatim>\<open>null\<close>, everything has been handed over. Whatever
  the transport answers, as long as \<^verbatim>\<open>flush\<close> is not called, the attempts are in
  non-decreasing order of arrival in the queue: no event is attempted after an event
  enqueued later has been attempted.
\<close>

theorem accepted_events_observed_in_order:
  "((\<forall>a\<in>set acts. accepting a) \<longrightarrow>
      prefix (observed (run (EventQueue_new mr st now) acts))
             (map handed (replayed st) @ map Some (enqueued acts)) \<and>
      prefix (drop (length (replayed st)) (observed (run (EventQueue_new mr st now) acts)))
             (map Some (enqueued acts)) \<and>
      (Null \<notin> set (replayed st) \<and> inflight (run (EventQueue_new mr st now) acts) = [] \<longrightarrow>
         observed (run (EventQueue_new mr st now) acts) =
           map handed (replayed st) @ map Some (enqueued acts))) \<and>
   ((\<forall>a\<in>set acts. no_flush a) \<longrightarrow>
      sorted (map a_ref (attempts (run (EventQueue_new mr st now) acts))))"
proof (intro conjI impI)
  let ?init = "EventQueue_new mr st now"
  let ?run = "run ?init acts"
  let ?all = "map handed (replayed st) @ map Some (enqueued acts)"
  assume acc: "\<forall>a\<in>set acts. accepting a"
  have "fifo_inv ?init"
    using fifo_at_new by (rule fifo_invI)
  then have inv: "fifo_inv ?run"
    using acc by (rule fifo_inv_run)
  have keys: "map handed (heap ?run) = ?all"
    using heap_run [of ?init acts] by (simp add: heap_new)
  have obs: "observed ?run = take (length (attempts ?run)) ?all"
    using fifo_inv_observed(1) [OF inv] keys by simp
  show "prefix (observed ?run) ?all"
    unfolding obs by (rule take_is_prefix)
  have "drop (length (replayed st)) (observed ?run) =
        take (length (attempts ?run) - length (replayed st))
          (drop (length (replayed st)) ?all)"
    unfolding obs by (rule drop_take)
  then have "drop (length (replayed st)) (observed ?run) =
        take (length (attempts ?run) - length (replayed st)) (map Some (enqueued acts))"
    by simp
  then show "prefix (drop (length (replayed st)) (observed ?run)) (map Some (enqueued acts))"
    by (simp only: take_is_prefix)
  show "observed ?run = ?all"
    if "Null \<notin> set (replayed st) \<and> inflight ?run = []"
  proof -
    have "Null \<notin> set (heap ?run)"
      using heap_run [of ?init acts] that by (simp add: heap_new)
    then have "length (attempts ?run) = length (heap ?run)"
      using fifo_inv_observed(2) [OF inv] that by simp
    also have "\<dots> = length ?all"
      using keys by (metis length_map)
    finally have "length ?all \<le> length (attempts ?run)"
      by (simp only: order_refl)
    then show ?thesis
      unfolding obs by (rule take_all)
  qed
next
  assume "\<forall>a\<in>set acts. no_flush a"
  then show "sorted (map a_ref (attempts (run (EventQueue_new mr st now) acts)))"
    by (rule attempts_sorted)
qed

theorem accepted_events_observed_in_order_witness:
  "accepting (Enqueue ''1'' ''/track/'' [(''event'', JStr ''first'')]) \<and>
   accepting (Enqueue ''2'' ''/track/'' [(''event'', JStr ''second'')]) \<and>
   accepting (Settle 0 True) \<and>
   no_flush (Enqueue ''1'' ''/track/'' [(''event'', JStr ''first'')]) \<and>
   no_flush (Enqueue ''2'' ''/track/'' [(''event'', JStr ''second'')]) \<and>
   no_flush (Settle 0 True) \<and>
   Null \<notin> set (replayed \<lparr>available = True, writable = True,
        content = Some (Snapshot [Event \<lparr>ev_id = ''0'', endpoint = ''/track/'',
          data = [(''event'', JStr ''stored'')], timestamp = 0, retries = 1\<rparr>])\<rparr>) \<and>
   inflight (run (EventQueue_new 3 \<lparr>available = True, writable = True,
        content = Some (Snapshot [Event \<lparr>ev_id = ''0'', endpoint = ''/track/'',
          data = [(''event'', JStr ''stored'')], timestamp = 0, retries = 1\<rparr>])\<rparr> 5) [Enqueue ''1'' ''/track/'' [(''event'', JStr ''first'')],
       Enqueue ''2'' ''/track/'' [(''event'', JStr ''second'')],
       Settle 0 True, Settle 0 True, Settle 0 True]) = [] \<and>
   observed (run (EventQueue_new 3 \<lparr>available = True, writable = True,
        content = Some (Snapshot [Event \<lparr>ev_id = ''0'', endpoint = ''/track/'',
          data = [(''event'', JStr ''stored'')], timestamp = 0, retries = 1\<rparr>])\<rparr> 5) [Enqueue ''1'' ''/track/'' [(''event'', JStr ''first'')],
       Enqueue ''2'' ''/track/'' [(''event'', JStr ''second'')],
       Settle 0 True, Settle 0 True, Settle 0 True]) =
     [Some (''0'', ''/track/'', [(''event'', JStr ''stored'')]),
      Some (''1'', ''/track/'', [(''event'', JStr ''first'')]),
      Some (''2'', ''/track/'', [(''event'', JStr ''second'')])] \<and>
   prefix (drop (length (replayed \<lparr>available = True, writable = True,
        content = Some (Snapshot [Event \<lparr>ev_id = ''0'', endpoint = ''/track/'',
          data = [(''event'', JStr ''stored'')], timestamp = 0, retries = 1\<rparr>])\<rparr>)) (observed (run (EventQueue_new 3 \<lparr>available = True, writable = True,
        content = Some (Snapshot [Event \<lparr>ev_id = ''0'', endpoint = ''/track/'',
          data = [(''event'', JStr ''stored'')], timestamp = 0, retries = 1\<rparr>])\<rparr> 5) [Enqueue ''1'' ''/track/'' [(''event'', JStr ''first'')],
       Enqueue ''2'' ''/track/'' [(''event'', JStr ''second'')],
       Settle 0 True, Settle 0 True, Settle 0 True])))
     [Some (''1'', ''/track/'', [(''event'', JStr ''first'')]),
      Some (''2'', ''/track/'', [(''event'', JStr ''second'')])] \<and>
   sorted (map a_ref (attempts (run (EventQueue_new 3 \<lparr>available = True, writable = True,
        content = Some (Snapshot [Event \<lparr>ev_id = ''0'', endpoint = ''/track/'',
          data = [(''event'', JStr ''stored'')], timestamp = 0, retries = 1\<rparr>])\<rparr> 5) [Enqueue ''1'' ''/track/'' [(''event'', JStr ''first'')],
       Enqueue ''2'' ''/track/'' [(''event'', JStr ''second'')],
       Settle 0 True, Settle 0 True, Settle 0 True])))"
proof -
  let ?st = "\<lparr>available = True, writable = True,
        content = Some (Snapshot [Event \<lparr>ev_id = ''0'', endpoint = ''/track/'',
          data = [(''event'', JStr ''stored'')], timestamp = 0, retries = 1\<rparr>])\<rparr>"
  let ?acts = "[Enqueue ''1'' ''/track/'' [(''event'', JStr ''first'')],
       Enqueue ''2'' ''/track/'' [(''event'', JStr ''second'')],
       Settle 0 True, Settle 0 True, Settle 0 True]"
  let ?run = "run (EventQueue_new 3 ?st 5) ?acts"
  have acc: "\<forall>a\<in>set ?acts. accepting a" and nof: "\<forall>a\<in>set ?acts. no_flush a"
    by simp_all
  have idle: "inflight ?run = []"
    by code_simp
  have stored: "Null \<notin> set (replayed ?st)"
    by (simp add: replayed_def)
  note ordered = accepted_events_observed_in_order
      [where acts = ?acts and mr = 3 and st = ?st and now = 5]
  have "observed ?run = map handed (replayed ?st) @ map Some (enqueued ?acts)"
    using ordered acc idle stored by blast
  moreover have "prefix (drop (length (replayed ?st)) (observed ?run))
      (map Some (enqueued ?acts))"
    using ordered acc by blast
  moreover have "sorted (map a_ref (attempts ?run))"
    using ordered nof by blast
  ultimately show ?thesis
    using idle by (simp add: replayed_def event_key_def)
qed

end
